theory Spec2Isabelle
  imports Main "HOL-Library.Sublist"
begin

section \<open>String primitives used by the ingestion pipeline\<close>

text \<open>
  The pipeline of \<^verbatim>\<open>daily_arxiv.py\<close> works on Python strings with four library
  operations: the substring test \<^verbatim>\<open>sub in s\<close>, \<^verbatim>\<open>s.find(sub)\<close>,
  \<^verbatim>\<open>s.split(sep)\<close> and slicing \<^verbatim>\<open>s[:n]\<close>. They are modelled on
  \<open>string\<close> (a list of characters). All patterns the code searches for are ASCII, so
  the functions see a Python string and its list of characters alike.
\<close>

text \<open>\<^verbatim>\<open>sub in s\<close>: some suffix of \<open>s\<close> starts with \<open>sub\<close>.\<close>

fun contains :: "string \<Rightarrow> string \<Rightarrow> bool" where
  "contains sub [] = (sub = [])"
| "contains sub (c # cs) = (prefix sub (c # cs) \<or> contains sub cs)"

text \<open>\<^verbatim>\<open>s.find(sub)\<close>: the index of the leftmost occurrence, \<open>-1\<close> when there is none.\<close>

fun str_find :: "string \<Rightarrow> string \<Rightarrow> int" where
  "str_find sub [] = (if sub = [] then 0 else -1)"
| "str_find sub (c # cs) =
     (if prefix sub (c # cs) then 0
      else (let r = str_find sub cs in if r = -1 then -1 else r + 1))"

text \<open>
  \<^verbatim>\<open>s.split(sep)\<close>: cut at the leftmost occurrence of \<open>sep\<close> and go on behind it, so
  that occurrences are taken left to right without overlap. The code only splits at the
  literals \<^verbatim>\<open>'/abs/'\<close> and \<^verbatim>\<open>'/'\<close>; for the empty separator (where Python raises
  \<^verbatim>\<open>ValueError\<close>) the function returns the string unsplit.
\<close>

function split_str :: "string \<Rightarrow> string \<Rightarrow> string list" where
  "split_str sep s =
     (let i = str_find sep s in
      if sep = [] \<or> i = -1 then [s]
      else take (nat i) s # split_str sep (drop (nat i + length sep) s))"
  by pat_completeness auto
termination
proof (relation "measure (\<lambda>(sep, s). length s)", goal_cases)
  case 1
  show ?case by simp
next
  case (2 sep s i)
  then have "s \<noteq> []" by (cases s) auto
  with 2 show ?case by auto
qed

declare split_str.simps [simp del]

section \<open>The ID normalizer\<close>

text \<open>
  \<^verbatim>\<open>
  def normalize_arxiv_id(arxiv_id: str) -> str:
      if not arxiv_id:
          return ""
      if '/abs/' in arxiv_id:
          arxiv_id = arxiv_id.split('/abs/')[-1]
      elif 'arxiv.org' in arxiv_id:
          arxiv_id = arxiv_id.split('/')[-1]
      ver_pos = arxiv_id.find('v')
      if ver_pos != -1:
          return arxiv_id[:ver_pos]
      return arxiv_id
  \<close>
  \<^verbatim>\<open>split\<close> never returns an empty list, so \<^verbatim>\<open>[-1]\<close> is its last element.
\<close>

definition strip_url :: "string \<Rightarrow> string" where
  "strip_url arxiv_id =
     (if contains ''/abs/'' arxiv_id then last (split_str ''/abs/'' arxiv_id)
      else if contains ''arxiv.org'' arxiv_id then last (split_str ''/'' arxiv_id)
      else arxiv_id)"

definition strip_version :: "string \<Rightarrow> string" where
  "strip_version arxiv_id =
     (let ver_pos = str_find ''v'' arxiv_id in
      if ver_pos \<noteq> -1 then take (nat ver_pos) arxiv_id else arxiv_id)"

definition normalize_arxiv_id :: "string \<Rightarrow> string" where
  "normalize_arxiv_id arxiv_id =
     (if arxiv_id = [] then [] else strip_version (strip_url arxiv_id))"


section \<open>Decimal numerals and digits\<close>

text \<open>\<^verbatim>\<open>str(N)\<close> for a natural number: its decimal digits, most significant first.\<close>

definition digit_char :: "nat \<Rightarrow> char" where
  "digit_char d = ''0123456789'' ! d"

fun str_nat :: "nat \<Rightarrow> string" where
  "str_nat n = (if n < 10 then [digit_char n] else str_nat (n div 10) @ [digit_char (n mod 10)])"

declare str_nat.simps [simp del]

definition is_digit :: "char \<Rightarrow> bool" where
  "is_digit c = (c \<in> set ''0123456789'')"

text \<open>The part of a string in front of its trailing run of digits (the run may be empty).\<close>

definition strip_trailing_digits :: "string \<Rightarrow> string" where
  "strip_trailing_digits s = rev (dropWhile is_digit (rev s))"

section \<open>Python values and errors\<close>

text \<open>
  The values \<^verbatim>\<open>json.loads\<close> returns and \<^verbatim>\<open>json.dumps\<close> takes. A Python \<^verbatim>\<open>dict\<close>
  keeps its keys in insertion order, so an object is an association list; its keys are
  distinct, and a lookup is \<open>map_of\<close>. Of a number only its being zero matters to the
  code below; integers stand for all numbers.
\<close>

datatype json =
    JNull
  | JBool bool
  | JNum int
  | JStr string
  | JArr "json list"
  | JObj "(string \<times> json) list"

type_synonym pdict = "(string \<times> json) list"

datatype py_error = TypeError | AttributeError | OSError

text \<open>\<^verbatim>\<open>d[k] = v\<close> on a dictionary: an existing key keeps its place, a new key goes last.\<close>

fun dict_set :: "('k \<times> 'v) list \<Rightarrow> 'k \<Rightarrow> 'v \<Rightarrow> ('k \<times> 'v) list" where
  "dict_set [] k v = [(k, v)]"
| "dict_set ((k', v') # d) k v = (if k' = k then (k, v) # d else (k', v') # dict_set d k v)"

text \<open>\<^verbatim>\<open>d.get(k, default)\<close>.\<close>

definition dict_get :: "('k \<times> 'v) list \<Rightarrow> 'k \<Rightarrow> 'v \<Rightarrow> 'v" where
  "dict_get d k dflt = (case map_of d k of Some v \<Rightarrow> v | None \<Rightarrow> dflt)"

text \<open>Python's truth value of a JSON value, negated: \<^verbatim>\<open>not v\<close>.\<close>

fun falsy :: "json \<Rightarrow> bool" where
  "falsy JNull = True"
| "falsy (JBool b) = (\<not> b)"
| "falsy (JNum n) = (n = 0)"
| "falsy (JStr s) = (s = [])"
| "falsy (JArr xs) = (xs = [])"
| "falsy (JObj kvs) = (kvs = [])"

text \<open>
  \<open>normalize_arxiv_id\<close> applied to whatever value an \<^verbatim>\<open>id\<close> field holds. A value that
  is false in Python gives the empty string. On any other value that is not a string the
  function raises: \<^verbatim>\<open>'/abs/' in arxiv_id\<close> is a \<^verbatim>\<open>TypeError\<close> on a number or a
  boolean, and a list or a dictionary has no \<^verbatim>\<open>split\<close> and no \<^verbatim>\<open>find\<close>.
\<close>

fun normalize_value :: "json \<Rightarrow> py_error + string" where
  "normalize_value (JStr s) = Inr (normalize_arxiv_id s)"
| "normalize_value (JArr xs) = (if xs = [] then Inr [] else Inl AttributeError)"
| "normalize_value (JObj kvs) = (if kvs = [] then Inr [] else Inl AttributeError)"
| "normalize_value v = (if falsy v then Inr [] else Inl TypeError)"

section \<open>The existing-store loader\<close>

text \<open>
  A store file as \<open>load_existing_metadata_files\<close> reads it: for each line of text, what
  \<^verbatim>\<open>line.strip()\<close> and \<^verbatim>\<open>json.loads\<close> make of it. \<open>ReadFailure\<close> is a line at which
  reading raises (an I/O or decoding error); \<open>Unreadable\<close> is a file that cannot be
  opened.
\<close>

datatype line = Blank | BadJson | Parsed json | ReadFailure

datatype disk_file = Unreadable | Lines "line list"

text \<open>
  \<^verbatim>\<open>
  data = json.loads(line)
  if 'id' in data:
      paper_id = data['id']
      paper_id = normalize_arxiv_id(paper_id)
      existing_data['arxiv-metadata-oai-snapshot'].add(paper_id)
  \<close>
  \<open>Inr None\<close>: the line has no \<^verbatim>\<open>id\<close>; \<open>Inr (Some p)\<close>: the ID to add; \<open>Inl e\<close>: an
  exception that is no \<^verbatim>\<open>JSONDecodeError\<close>. On a list \<^verbatim>\<open>in\<close> tests membership, on a
  string it tests for a substring, and indexing either with \<^verbatim>\<open>'id'\<close> raises.
\<close>

fun line_id :: "json \<Rightarrow> py_error + string option" where
  "line_id (JObj kvs) =
     (case map_of kvs ''id'' of
        None \<Rightarrow> Inr None
      | Some v \<Rightarrow> (case normalize_value v of Inl e \<Rightarrow> Inl e | Inr p \<Rightarrow> Inr (Some p)))"
| "line_id (JArr xs) = (if JStr ''id'' \<in> set xs then Inl TypeError else Inr None)"
| "line_id (JStr s) = (if contains ''id'' s then Inl TypeError else Inr None)"
| "line_id v = Inl TypeError"

text \<open>
  The loop over the lines of one file. The set is updated in place, and the
  \<^verbatim>\<open>except Exception\<close> around the file only logs: an exception ends the scan of this
  file and keeps the IDs added so far.
\<close>

fun scan_lines :: "line list \<Rightarrow> string set \<Rightarrow> string set" where
  "scan_lines [] ids = ids"
| "scan_lines (Blank # ls) ids = scan_lines ls ids"
| "scan_lines (BadJson # ls) ids = scan_lines ls ids"
| "scan_lines (ReadFailure # ls) ids = ids"
| "scan_lines (Parsed data # ls) ids =
     (case line_id data of
        Inl e \<Rightarrow> ids
      | Inr None \<Rightarrow> scan_lines ls ids
      | Inr (Some paper_id) \<Rightarrow> scan_lines ls (insert paper_id ids))"

fun scan_file :: "disk_file \<Rightarrow> string set \<Rightarrow> string set" where
  "scan_file Unreadable ids = ids"
| "scan_file (Lines ls) ids = scan_lines ls ids"

text \<open>
  A character of a file name. File names are Python strings, and \<^verbatim>\<open>\d\<close> in a pattern
  matches every character that Unicode classifies as a decimal digit: a character is an
  ASCII character, or another decimal digit, or any other character, the latter two
  given by their code points.
\<close>

datatype uchar = Ascii char | Decimal nat | Other nat

fun code_point :: "uchar \<Rightarrow> nat" where
  "code_point (Ascii c) = of_char c"
| "code_point (Decimal n) = n"
| "code_point (Other n) = n"

fun is_decimal :: "uchar \<Rightarrow> bool" where
  "is_decimal (Ascii c) = is_digit c"
| "is_decimal (Decimal n) = True"
| "is_decimal (Other n) = False"

text \<open>
  \<^verbatim>\<open>re.search(r'arxiv-metadata-oai-snapshot(-(\d{6}))?\.json$', filename)\<close> and its
  \<^verbatim>\<open>group(2)\<close>: \<open>None\<close> when the name does not match, \<open>Some None\<close> when it matches with
  no period suffix, \<open>Some (Some ym)\<close> with the six digits otherwise. The pattern is
  anchored at the end only, and \<^verbatim>\<open>$\<close> also matches in front of a final newline.
\<close>

definition match_snapshot :: "uchar list \<Rightarrow> uchar list option option" where
  "match_snapshot filename =
     (let n = (if filename \<noteq> [] \<and> last filename = Ascii (CHR 0x0A) then butlast filename
               else filename) in
      if suffix (map Ascii ''arxiv-metadata-oai-snapshot.json'') n then Some None
      else if suffix (map Ascii ''.json'') n then
        (let stem = take (length n - 5) n;
             ym = drop (length stem - 6) stem;
             pre = take (length stem - 6) stem
         in if 6 \<le> length stem \<and> list_all is_decimal ym \<and>
               suffix (map Ascii ''arxiv-metadata-oai-snapshot-'') pre
            then Some (Some ym) else None)
      else None)"

text \<open>
  \<^verbatim>\<open>a <= b\<close> on strings: lexicographic by code point, a proper prefix first. The
  current period comes from \<^verbatim>\<open>strftime\<close> and is ASCII.
\<close>

fun codes_le :: "nat list \<Rightarrow> nat list \<Rightarrow> bool" where
  "codes_le [] b = True"
| "codes_le (x # xs) [] = False"
| "codes_le (x # xs) (y # ys) = (x < y \<or> (x = y \<and> codes_le xs ys))"

definition period_le :: "uchar list \<Rightarrow> string \<Rightarrow> bool" where
  "period_le file_year_month current_year_month =
     codes_le (map code_point file_year_month) (map of_char current_year_month)"

text \<open>
  The loop over \<^verbatim>\<open>os.listdir(metadata_dir)\<close>, whose order the operating system
  chooses: the listing is a list of file names with their files.
  \<^verbatim>\<open>
  if arxiv_match:
      file_year_month = arxiv_match.group(2)
      if skip_no_date_files and not file_year_month:
          continue
      if not file_year_month or file_year_month <= current_year_month:
          ... read the file ...
  \<close>
\<close>

fun load_files :: "bool \<Rightarrow> string \<Rightarrow> (uchar list \<times> disk_file) list \<Rightarrow> string set \<Rightarrow> string set" where
  "load_files skip_no_date_files current_year_month [] ids = ids"
| "load_files skip_no_date_files current_year_month ((filename, f) # rest) ids =
     (case match_snapshot filename of
        None \<Rightarrow> load_files skip_no_date_files current_year_month rest ids
      | Some file_year_month \<Rightarrow>
          if skip_no_date_files \<and> file_year_month = None
          then load_files skip_no_date_files current_year_month rest ids
          else if (case file_year_month of None \<Rightarrow> True | Some ym \<Rightarrow> period_le ym current_year_month)
          then load_files skip_no_date_files current_year_month rest (scan_file f ids)
          else load_files skip_no_date_files current_year_month rest ids)"

text \<open>
  \<open>load_existing_metadata_files\<close>: the directory is \<open>None\<close> when \<^verbatim>\<open>./metadata\<close> does
  not exist, and the result is then empty; a path that exists is a directory that can
  be listed. Of the dictionary the function returns only
  the set under \<^verbatim>\<open>'arxiv-metadata-oai-snapshot'\<close> is ever filled or read; it is the
  Known-ID Set.
\<close>

definition load_existing_metadata_files ::
  "bool \<Rightarrow> string \<Rightarrow> (uchar list \<times> disk_file) list option \<Rightarrow> string set" where
  "load_existing_metadata_files skip_no_date_files current_year_month metadata_dir =
     (case metadata_dir of
        None \<Rightarrow> {}
      | Some listing \<Rightarrow> load_files skip_no_date_files current_year_month listing {})"

text \<open>
  The parseable records of a file are its lines that are JSON objects with an \<^verbatim>\<open>id\<close>
  of which \<open>normalize_arxiv_id\<close> gives a canonical ID: a string, or a value that is
  false in Python, for which the function returns the empty string.
\<close>

fun record_id :: "line \<Rightarrow> string option" where
  "record_id (Parsed (JObj kvs)) =
     (case map_of kvs ''id'' of
        Some (JStr s) \<Rightarrow> Some (normalize_arxiv_id s)
      | Some v \<Rightarrow> if falsy v then Some [] else None
      | None \<Rightarrow> None)"
| "record_id l = None"

fun record_ids :: "disk_file \<Rightarrow> string set" where
  "record_ids Unreadable = {}"
| "record_ids (Lines ls) = {p. \<exists>l \<in> set ls. record_id l = Some p}"

text \<open>
  The lines at which the scan of a file ends: a line that cannot be read, and a line
  that is JSON but on which the loop raises something else than a decode error. That is
  a number, a boolean or \<^verbatim>\<open>null\<close>; a string in which \<^verbatim>\<open>id\<close> occurs; a list with the
  element \<^verbatim>\<open>"id"\<close>; an object whose \<^verbatim>\<open>id\<close> is neither a string nor false.
\<close>

fun stops_scan :: "line \<Rightarrow> bool" where
  "stops_scan Blank = False"
| "stops_scan BadJson = False"
| "stops_scan ReadFailure = True"
| "stops_scan (Parsed (JObj kvs)) =
     (case map_of kvs ''id'' of None \<Rightarrow> False | Some (JStr s) \<Rightarrow> False | Some v \<Rightarrow> \<not> falsy v)"
| "stops_scan (Parsed (JArr xs)) = (JStr ''id'' \<in> set xs)"
| "stops_scan (Parsed (JStr s)) = contains ''id'' s"
| "stops_scan (Parsed v) = True"

text \<open>The lines in front of the first one that ends the scan, and their canonical IDs.\<close>

definition reached :: "line list \<Rightarrow> line list" where
  "reached ls = takeWhile (\<lambda>l. \<not> stops_scan l) ls"

fun reached_ids :: "disk_file \<Rightarrow> string set" where
  "reached_ids Unreadable = {}"
| "reached_ids (Lines ls) = {p. \<exists>l \<in> set (reached ls). record_id l = Some p}"

text \<open>A file that can be opened and in which no line ends the scan.\<close>

fun read_through :: "disk_file \<Rightarrow> bool" where
  "read_through Unreadable = False"
| "read_through (Lines ls) = list_all (\<lambda>l. \<not> stops_scan l) ls"

text \<open>The test the loader applies to a file name before it reads the file.\<close>

definition eligible :: "bool \<Rightarrow> string \<Rightarrow> uchar list \<Rightarrow> bool" where
  "eligible skip_no_date_files current_year_month filename =
     (case match_snapshot filename of
        None \<Rightarrow> False
      | Some None \<Rightarrow> \<not> skip_no_date_files
      | Some (Some ym) \<Rightarrow> period_le ym current_year_month)"

section \<open>The world of one run\<close>

text \<open>
  What the fetcher and the writer act on:
  \<^item> \<open>server\<close>: the outcomes of the coming calls of \<^verbatim>\<open>urllib.request.urlopen\<close> (with
    \<^verbatim>\<open>read\<close> and \<^verbatim>\<open>decode\<close>), one per call, in order;
  \<^item> \<open>sleeps\<close>: the arguments of the calls of \<^verbatim>\<open>time.sleep\<close> made so far;
  \<^item> \<open>arxiv_file\<close>: the bytes of the current period's store file on disk, \<open>None\<close>
    while the file does not exist;
  \<^item> \<open>write_faults\<close>: the outcomes of the coming file-system operations of the
    writer, one per operation, in order (creating the directory, opening the file,
    writing to it, closing it); when the list is used up every operation succeeds and
    what is written reaches the disk.
\<close>

text \<open>
  The outcome of one operation. The store file is written through Python's buffered
  text file: a \<^verbatim>\<open>write\<close> that succeeds hands its bytes to the buffer, and they reach
  the disk then (\<open>Succeeds\<close>, with all that the buffer holds) or with a later operation
  (\<open>Buffers\<close>). \<open>Fails n\<close> is an operation that raises \<^verbatim>\<open>OSError\<close> after \<open>n\<close> of the
  bytes waiting in the buffer have reached the disk. For an operation that writes
  nothing, \<open>Fails\<close> is the exception and the other two are success.
\<close>

datatype io_outcome = Succeeds | Buffers | Fails nat

datatype elem = Missing | Elem "string option"

record xml_entry =
  e_title :: elem
  e_id :: elem
  e_summary :: elem
  e_authors :: "elem list"
  e_published :: elem
  e_updated :: elem
  e_categories :: "string option list"
  e_links :: "string option list"

datatype feed = ParseError | Feed "xml_entry list"

datatype response = Content feed | HTTPError nat | OtherError

record world =
  server :: "response list"
  sleeps :: "nat list"
  arxiv_file :: "string option"
  write_faults :: "io_outcome list"

definition newline :: char where
  "newline = CHR 0x0A"

section \<open>The incremental writer\<close>

definition file_bytes :: "world \<Rightarrow> string" where
  "file_bytes w = (case arxiv_file w of None \<Rightarrow> [] | Some bytes \<Rightarrow> bytes)"

text \<open>The outcome of the next operation, taken from the list.\<close>

definition next_outcome :: "world \<Rightarrow> io_outcome \<times> world" where
  "next_outcome w =
     (case write_faults w of
        [] \<Rightarrow> (Succeeds, w)
      | outcome # faults \<Rightarrow> (outcome, w\<lparr>write_faults := faults\<rparr>))"

text \<open>Bytes reach the disk: they are appended to the file.\<close>

definition to_disk :: "string \<Rightarrow> world \<Rightarrow> world" where
  "to_disk data w = w\<lparr>arxiv_file := Some (file_bytes w @ data)\<rparr>"

text \<open>\<^verbatim>\<open>os.makedirs(metadata_dir, exist_ok=True)\<close>, in front of the \<^verbatim>\<open>try\<close>.\<close>

definition make_dir :: "world \<Rightarrow> bool \<times> world" where
  "make_dir w = (case next_outcome w of (Fails n, w') \<Rightarrow> (False, w') | (outcome, w') \<Rightarrow> (True, w'))"

text \<open>
  One call of \<^verbatim>\<open>f.write(data)\<close> on the store file opened for appending; \<open>buffer\<close>
  holds the bytes of earlier calls that have not reached the disk. The result has
  whether the call returned, and the buffer after it.
\<close>

definition file_write :: "string \<Rightarrow> string \<Rightarrow> world \<Rightarrow> bool \<times> string \<times> world" where
  "file_write data buffer w =
     (case next_outcome w of
        (Succeeds, w') \<Rightarrow> (True, [], to_disk (buffer @ data) w')
      | (Buffers, w') \<Rightarrow> (True, buffer @ data, w')
      | (Fails n, w') \<Rightarrow> (False, drop n (buffer @ data), to_disk (take n (buffer @ data)) w'))"

text \<open>
  Leaving the \<^verbatim>\<open>with\<close> block closes the file, on every way out; closing writes what
  the buffer holds.
\<close>

definition file_close :: "string \<Rightarrow> world \<Rightarrow> bool \<times> world" where
  "file_close buffer w =
     (case next_outcome w of
        (Fails n, w') \<Rightarrow> (False, to_disk (take n buffer) w')
      | (outcome, w') \<Rightarrow> (True, to_disk buffer w'))"

text \<open>
  \<^verbatim>\<open>
  if os.path.exists(arxiv_file) and os.path.getsize(arxiv_file) > 0:
      with open(arxiv_file, 'rb+') as f:
          f.seek(0, 2)
          f.seek(f.tell() - 1, 0)
          last_char = f.read(1)
          if last_char != b'\n':
              f.write(b'\n')
  \<close>
  Two operations: opening the file and reading its last byte, and writing the newline
  (with the closing that follows it). The two tests in front of them raise nothing on a
  file that stays in place.
\<close>

definition ensure_newline :: "world \<Rightarrow> bool \<times> world" where
  "ensure_newline w =
     (case arxiv_file w of
        None \<Rightarrow> (True, w)
      | Some bytes \<Rightarrow>
          if bytes = [] then (True, w)
          else (case next_outcome w of
                  (Fails n, w1) \<Rightarrow> (False, w1)
                | (outcome, w1) \<Rightarrow>
                    if last bytes \<noteq> newline then
                      (case next_outcome w1 of
                         (Fails n, w2) \<Rightarrow> (False, to_disk (take n [newline]) w2)
                       | (outcome, w2) \<Rightarrow> (True, to_disk [newline] w2))
                    else (True, w1)))"

text \<open>
  \<^verbatim>\<open>open(arxiv_file, 'a', encoding='utf-8')\<close>: it raises, or it opens the file and
  creates it when it is missing.
\<close>

definition open_append :: "world \<Rightarrow> bool \<times> world" where
  "open_append w =
     (case next_outcome w of
        (Fails n, w') \<Rightarrow> (False, w')
      | (outcome, w') \<Rightarrow>
          (True, case arxiv_file w' of None \<Rightarrow> w'\<lparr>arxiv_file := Some []\<rparr> | Some bytes \<Rightarrow> w'))"

text \<open>
  \<^verbatim>\<open>
  for paper_id, paper_data in new_dict.items():
      full_paper_id = paper_data.get('id', paper_id)
      clean_paper_id = normalize_arxiv_id(full_paper_id)
      if clean_paper_id not in existing_data['arxiv-metadata-oai-snapshot']:
          json_line = json.dumps(paper_data, ensure_ascii=False)
          f.write(json_line + '\n')
          new_entries += 1
          existing_data['arxiv-metadata-oai-snapshot'].add(clean_paper_id)
      else:
          logging.debug(...)
  \<close>
  \<^verbatim>\<open>json.dumps\<close> is the parameter \<open>dumps\<close>. The Known-ID Set is a Python set changed in
  place, so the function returns it also when an exception ends the loop: the first
  component is then the exception. A \<^verbatim>\<open>write\<close> that raises leaves the counter and the
  set as they are. The buffer of the open file goes from call to call.
\<close>

fun write_records ::
  "(json \<Rightarrow> string) \<Rightarrow> (string \<times> pdict) list \<Rightarrow> nat \<Rightarrow> string set \<Rightarrow> string \<Rightarrow> world \<Rightarrow>
   py_error option \<times> nat \<times> string set \<times> string \<times> world" where
  "write_records dumps [] new_entries existing_data buffer w =
     (None, new_entries, existing_data, buffer, w)"
| "write_records dumps ((paper_id, paper_data) # rest) new_entries existing_data buffer w =
     (case normalize_value (dict_get paper_data ''id'' (JStr paper_id)) of
        Inl e \<Rightarrow> (Some e, new_entries, existing_data, buffer, w)
      | Inr clean_paper_id \<Rightarrow>
          if clean_paper_id \<notin> existing_data then
            (case file_write (dumps (JObj paper_data) @ [newline]) buffer w of
               (False, buffer', w') \<Rightarrow> (Some OSError, new_entries, existing_data, buffer', w')
             | (True, buffer', w') \<Rightarrow>
                 write_records dumps rest (new_entries + 1) (insert clean_paper_id existing_data)
                   buffer' w')
          else write_records dumps rest new_entries existing_data buffer w)"

text \<open>
  The \<^verbatim>\<open>with open(arxiv_file, 'a') as f\<close> block: the loop, and the closing of the file
  on the way out. An exception of the closing is the one that leaves the block.
\<close>

definition append_records ::
  "(json \<Rightarrow> string) \<Rightarrow> (string \<times> pdict) list \<Rightarrow> string set \<Rightarrow> world \<Rightarrow>
   py_error option \<times> nat \<times> string set \<times> world" where
  "append_records dumps new_dict existing_data w =
     (case write_records dumps new_dict 0 existing_data [] w of
        (raised, new_entries, existing_data', buffer, w1) \<Rightarrow>
          (case file_close buffer w1 of
             (False, w2) \<Rightarrow> (Some OSError, new_entries, existing_data', w2)
           | (True, w2) \<Rightarrow> (raised, new_entries, existing_data', w2)))"

text \<open>
  \<open>save_metadata_files\<close>, called with a Known-ID Set (every call in the repository
  passes one). The \<^verbatim>\<open>except Exception\<close> of the function logs and raises again, so an
  exception of the body is the result \<open>Inl\<close>, as is one of \<^verbatim>\<open>os.makedirs\<close> in front
  of it; the normal result is \<open>(new_entries, total_arxiv)\<close>. The Known-ID Set and the
  world are returned in both cases, as they are after the call.
\<close>

definition save_metadata_files ::
  "(json \<Rightarrow> string) \<Rightarrow> (string \<times> pdict) list \<Rightarrow> string set \<Rightarrow> world \<Rightarrow>
   (py_error + nat \<times> nat) \<times> string set \<times> world" where
  "save_metadata_files dumps new_dict existing_data w =
     (case make_dir w of
        (False, w0) \<Rightarrow> (Inl OSError, existing_data, w0)
      | (True, w0) \<Rightarrow>
     (case ensure_newline w0 of
        (False, w1) \<Rightarrow> (Inl OSError, existing_data, w1)
      | (True, w1) \<Rightarrow>
     (case open_append w1 of
        (False, w2) \<Rightarrow> (Inl OSError, existing_data, w2)
      | (True, w2) \<Rightarrow>
          (case append_records dumps new_dict existing_data w2 of
             (Some e, new_entries, existing_data', w3) \<Rightarrow> (Inl e, existing_data', w3)
           | (None, new_entries, existing_data', w3) \<Rightarrow>
               (Inr (new_entries, card existing_data'), existing_data', w3)))))"

section \<open>The paginated fetcher: one entry\<close>

text \<open>
  An entry of the Atom feed holds what \<^verbatim>\<open>entry.find\<close> and \<^verbatim>\<open>entry.findall\<close> give
  for the tags the code reads: \<open>Missing\<close> when \<^verbatim>\<open>find\<close> returns \<^verbatim>\<open>None\<close>, otherwise
  the element's \<^verbatim>\<open>text\<close>, which is \<^verbatim>\<open>None\<close> for an empty element. \<open>e_authors\<close> has
  the \<^verbatim>\<open>name\<close> child of every \<^verbatim>\<open>author\<close> element, \<open>e_categories\<close> the \<^verbatim>\<open>term\<close>
  attribute of every \<^verbatim>\<open>category\<close>, \<open>e_links\<close> the \<^verbatim>\<open>href\<close> of every \<^verbatim>\<open>link\<close>.
\<close>

text \<open>\<^verbatim>\<open>s.lower()\<close> on the ASCII letters, those which the words looked for consist of.\<close>

definition lower_char :: "char \<Rightarrow> char" where
  "lower_char c =
     (let n = (of_char c :: nat) in if 65 \<le> n \<and> n \<le> 90 then char_of (n + 32) else c)"

definition lower :: "string \<Rightarrow> string" where
  "lower s = map lower_char s"

text \<open>
  \<^verbatim>\<open>
  title_elem = entry.find('{http://www.w3.org/2005/Atom}title')
  if title_elem is not None and title_elem.text and 'title' in title_elem.text.lower()
        and 'result' in title_elem.text.lower():
      continue
  \<close>
\<close>

definition is_search_info :: "xml_entry \<Rightarrow> bool" where
  "is_search_info entry =
     (case e_title entry of
        Missing \<Rightarrow> False
      | Elem None \<Rightarrow> False
      | Elem (Some t) \<Rightarrow> t \<noteq> [] \<and> contains ''title'' (lower t) \<and> contains ''result'' (lower t))"

text \<open>
  \<^verbatim>\<open>
  paper_id = entry_id.split('/abs/')[-1] if '/abs/' in entry_id else entry_id
  ver_pos = paper_id.find('v')
  if ver_pos != -1:
      paper_id = paper_id[:ver_pos]
  \<close>
  The fetcher does not call \<open>normalize_arxiv_id\<close>; it has these lines of its own.
\<close>

definition extract_paper_id :: "string \<Rightarrow> string" where
  "extract_paper_id entry_id =
     (let paper_id = (if contains ''/abs/'' entry_id then last (split_str ''/abs/'' entry_id)
                      else entry_id);
          ver_pos = str_find ''v'' paper_id
      in if ver_pos \<noteq> -1 then take (nat ver_pos) paper_id else paper_id)"

text \<open>
  \<open>get_authors(authors)\<close> with \<^verbatim>\<open>first_author = False\<close>; an author's name is \<^verbatim>\<open>None\<close>
  when its \<^verbatim>\<open>name\<close> element is empty, and \<^verbatim>\<open>author.name + ", "\<close> then raises. (The
  second call, with \<^verbatim>\<open>first_author = True\<close>, cannot raise and its result is not used.)
\<close>

fun authors_concat :: "string option list \<Rightarrow> string \<Rightarrow> py_error + string" where
  "authors_concat [] authors_str = Inr authors_str"
| "authors_concat (None # rest) authors_str = Inl TypeError"
| "authors_concat (Some name # rest) authors_str = authors_concat rest (authors_str @ name @ '', '')"

definition get_authors :: "string option list \<Rightarrow> py_error + string" where
  "get_authors authors =
     (if authors = [] then Inr ''None''
      else (case authors_concat authors [] of
              Inl e \<Rightarrow> Inl e
            | Inr authors_str \<Rightarrow> Inr (take (length authors_str - 2) authors_str)))"

fun author_names :: "elem list \<Rightarrow> string option list" where
  "author_names [] = []"
| "author_names (Missing # rest) = author_names rest"
| "author_names (Elem name # rest) = name # author_names rest"

fun category_terms :: "string option list \<Rightarrow> string list" where
  "category_terms [] = []"
| "category_terms (None # rest) = category_terms rest"
| "category_terms (Some term # rest) =
     (if term \<noteq> [] then term # category_terms rest else category_terms rest)"

text \<open>\<^verbatim>\<open>summary_elem.text.replace("\n", " ") if summary_elem is not None else ""\<close>\<close>

fun abstract_of :: "elem \<Rightarrow> py_error + string" where
  "abstract_of Missing = Inr []"
| "abstract_of (Elem None) = Inl AttributeError"
| "abstract_of (Elem (Some t)) = Inr (map (\<lambda>c. if c = newline then CHR '' '' else c) t)"

text \<open>\<^verbatim>\<open>published_elem.text[:10] if published_elem is not None else ""\<close>\<close>

fun date_of :: "elem \<Rightarrow> py_error + string" where
  "date_of Missing = Inr []"
| "date_of (Elem None) = Inl TypeError"
| "date_of (Elem (Some t)) = Inr (take 10 t)"

text \<open>
  \<^verbatim>\<open>name.split()\<close>: the maximal runs of characters that are not white space (the ASCII
  characters for which \<^verbatim>\<open>str.isspace\<close> holds).
\<close>

definition is_space :: "char \<Rightarrow> bool" where
  "is_space c = (let n = (of_char c :: nat) in (9 \<le> n \<and> n \<le> 13) \<or> (28 \<le> n \<and> n \<le> 32))"

fun split_ws :: "string \<Rightarrow> string \<Rightarrow> string list" where
  "split_ws cur [] = (if cur = [] then [] else [cur])"
| "split_ws cur (c # cs) =
     (if is_space c then (if cur = [] then split_ws [] cs else cur # split_ws [] cs)
      else split_ws (cur @ [c]) cs)"

fun join_spaces :: "string list \<Rightarrow> string" where
  "join_spaces [] = []"
| "join_spaces [p] = p"
| "join_spaces (p # ps) = p @ '' '' @ join_spaces ps"

text \<open>
  \<^verbatim>\<open>
  name_parts = author.name.split()
  if len(name_parts) >= 2:
      last = name_parts[-1]
      first = name_parts[0]
      middle = ' '.join(name_parts[1:-1]) if len(name_parts) > 2 else ''
      authors_parsed.append([last, first, middle])
  else:
      authors_parsed.append([author.name, '', ''])
  \<close>
  It runs after \<open>get_authors\<close> has found every name to be a string.
\<close>

definition parse_author :: "string \<Rightarrow> json" where
  "parse_author name =
     (let name_parts = split_ws [] name in
      if 2 \<le> length name_parts then
        JArr [JStr (last name_parts), JStr (hd name_parts),
              JStr (if 2 < length name_parts then join_spaces (butlast (tl name_parts)) else [])]
      else JArr [JStr name, JStr [], JStr []])"

fun authors_parsed_of :: "string option list \<Rightarrow> json list" where
  "authors_parsed_of [] = []"
| "authors_parsed_of (None # rest) = authors_parsed_of rest"
| "authors_parsed_of (Some name # rest) = parse_author name # authors_parsed_of rest"

definition opt_str :: "string option \<Rightarrow> json" where
  "opt_str x = (case x of None \<Rightarrow> JNull | Some s \<Rightarrow> JStr s)"

text \<open>
  The dictionary stored under \<^verbatim>\<open>full_content[paper_id]\<close>, or the exception that one
  of the steps in front of it raises.
\<close>

definition build_paper :: "xml_entry \<Rightarrow> string \<Rightarrow> string option \<Rightarrow> string \<Rightarrow> py_error + pdict" where
  "build_paper entry entry_id title paper_id =
     (let authors = author_names (e_authors entry);
          categories = category_terms (e_categories entry);
          primary_category = (case categories of [] \<Rightarrow> None | c # cs \<Rightarrow> Some c);
          links = map opt_str (e_links entry)
      in case get_authors authors of
           Inl e \<Rightarrow> Inl e
         | Inr paper_authors \<Rightarrow>
        (case abstract_of (e_summary entry) of
           Inl e \<Rightarrow> Inl e
         | Inr abstract \<Rightarrow>
        (case date_of (e_published entry) of
           Inl e \<Rightarrow> Inl e
         | Inr publish_time \<Rightarrow>
        (case date_of (e_updated entry) of
           Inl e \<Rightarrow> Inl e
         | Inr update_time \<Rightarrow>
             Inr [(''id'', JStr paper_id),
                  (''authors'', JStr paper_authors),
                  (''title'', opt_str title),
                  (''comments'', JNull),
                  (''journal-ref'', JNull),
                  (''doi'', JNull),
                  (''categories'', JArr (map JStr categories)),
                  (''abstract'', JStr abstract),
                  (''update_date'', JStr update_time),
                  (''authors_parsed'', JArr (authors_parsed_of authors)),
                  (''primary_category'', opt_str primary_category),
                  (''publish_time'', JStr publish_time),
                  (''entry_id'', JStr entry_id),
                  (''links'', JArr links)]))))"

text \<open>
  The body of \<^verbatim>\<open>for entry in entries\<close>, on the pair of \<open>entry_count\<close> and
  \<open>full_content\<close>. Its \<^verbatim>\<open>except Exception\<close> logs and goes on with the next entry; the
  counter has been incremented by then. An \<^verbatim>\<open>id\<close> element without text makes
  \<^verbatim>\<open>'/abs/' in entry_id\<close> raise.
\<close>

definition process_entry ::
  "xml_entry \<Rightarrow> nat \<times> (string \<times> pdict) list \<Rightarrow> nat \<times> (string \<times> pdict) list" where
  "process_entry entry state =
     (case state of (entry_count, full_content) \<Rightarrow>
        if is_search_info entry then (entry_count, full_content)
        else
          (case (e_id entry, e_title entry) of
             (Elem id_text, Elem title) \<Rightarrow>
               (case id_text of
                  None \<Rightarrow> (entry_count + 1, full_content)
                | Some entry_id \<Rightarrow>
                    (let paper_id = extract_paper_id entry_id in
                     if paper_id \<in> fst ` set full_content then (entry_count + 1, full_content)
                     else (case build_paper entry entry_id title paper_id of
                             Inl e \<Rightarrow> (entry_count + 1, full_content)
                           | Inr paper \<Rightarrow> (entry_count + 1, dict_set full_content paper_id paper))))
           | _ \<Rightarrow> (entry_count + 1, full_content)))"

section \<open>The paginated fetcher: requests and the loop\<close>

definition max_retries :: nat where
  "max_retries = 5"

definition batch_size :: int where
  "batch_size = 100"

definition max_empty_pages :: nat where
  "max_empty_pages = 3"

text \<open>How the retry loop ends: with the content of the response, or with the exception it raises.\<close>

datatype fetched = Got feed | RaisedHTTP nat | RaisedOther

text \<open>
  \<^verbatim>\<open>
  while retry_count < max_retries:
      try:
          response = urllib.request.urlopen(url)
          content = response.read().decode('utf-8')
          break
      except urllib.error.HTTPError as e:
          if e.code == 503:
              retry_count += 1
              wait_time = 10 * retry_count
              if retry_count < max_retries:
                  time.sleep(wait_time)
                  continue
              else:
                  raise
          else:
              raise
      except Exception as e:
          retry_count += 1
          if retry_count < max_retries:
              wait_time = 5 * retry_count
              time.sleep(wait_time)
              continue
          else:
              raise
  \<close>
  Each turn takes one outcome from the server's list; the result is \<open>None\<close> when the
  list ends before the loop does. The loop is entered with \<open>retry_count = 0\<close> and every
  \<^verbatim>\<open>continue\<close> is under \<open>retry_count < max_retries\<close>, so the loop never ends by its
  condition, and \<^verbatim>\<open>content\<close> is set whenever it ends without an exception.
\<close>

fun retry_loop ::
  "nat \<Rightarrow> response list \<Rightarrow> nat list \<Rightarrow> (fetched \<times> response list \<times> nat list) option" where
  "retry_loop retry_count [] slept = None"
| "retry_loop retry_count (Content content # rest) slept = Some (Got content, rest, slept)"
| "retry_loop retry_count (HTTPError code # rest) slept =
     (if code = 503 then
        (let retry_count = retry_count + 1; wait_time = 10 * retry_count in
         if retry_count < max_retries then retry_loop retry_count rest (slept @ [wait_time])
         else Some (RaisedHTTP code, rest, slept))
      else Some (RaisedHTTP code, rest, slept))"
| "retry_loop retry_count (OtherError # rest) slept =
     (let retry_count = retry_count + 1 in
      if retry_count < max_retries then retry_loop retry_count rest (slept @ [5 * retry_count])
      else Some (RaisedOther, rest, slept))"

text \<open>The variables of \<open>get_daily_papers\<close> that the loop changes.\<close>

record fetch_state =
  start :: int
  empty_page_count :: nat
  full_content :: "(string \<times> pdict) list"
  existing_data :: "string set"
  new_papers_count :: nat

text \<open>
  \<^verbatim>\<open>
  for paper_id, paper_data in current_items:
      clean_paper_id = normalize_arxiv_id(paper_data.get('id', paper_id))
      if clean_paper_id not in existing_data['arxiv-metadata-oai-snapshot']:
          batch_data[paper_id] = paper_data
          batch_new_count += 1
  \<close>
\<close>

fun select_new ::
  "(string \<times> pdict) list \<Rightarrow> string set \<Rightarrow> (string \<times> pdict) list \<times> nat \<Rightarrow>
   py_error + (string \<times> pdict) list \<times> nat" where
  "select_new [] existing acc = Inr acc"
| "select_new ((paper_id, paper_data) # rest) existing (batch_data, batch_new_count) =
     (case normalize_value (dict_get paper_data ''id'' (JStr paper_id)) of
        Inl e \<Rightarrow> Inl e
      | Inr clean_paper_id \<Rightarrow>
          if clean_paper_id \<notin> existing
          then select_new rest existing (dict_set batch_data paper_id paper_data, batch_new_count + 1)
          else select_new rest existing (batch_data, batch_new_count))"

text \<open>
  The block under \<^verbatim>\<open>if entry_count > 0\<close>:
  \<^verbatim>\<open>
  try:
      current_items = list(full_content.items())[-entry_count:]
      ... batch_data, batch_new_count ...
      if len(batch_data) > 0:
          new_count, total_count, updated_existing_data = save_metadata_files(batch_data, existing_data)
          existing_data = updated_existing_data
          new_papers_count += batch_new_count
          time.sleep(5)
  except Exception as e:
      logging.error(...)
  \<close>
  An exception of \<open>save_metadata_files\<close> is caught here and logged. The Known-ID Set
  is the same object inside and outside the call, so what the writer added before the
  exception stays in \<open>existing_data\<close>.
\<close>

definition save_batch ::
  "(json \<Rightarrow> string) \<Rightarrow> nat \<Rightarrow> fetch_state \<Rightarrow> world \<Rightarrow> fetch_state \<times> world" where
  "save_batch dumps entry_count s w =
     (let items = full_content s;
          current_items = drop (length items - entry_count) items
      in case select_new current_items (existing_data s) ([], 0) of
           Inl e \<Rightarrow> (s, w)
         | Inr (batch_data, batch_new_count) \<Rightarrow>
             if 0 < length batch_data then
               (case save_metadata_files dumps batch_data (existing_data s) w of
                  (Inl e, updated_existing_data, w') \<Rightarrow>
                    (s\<lparr>existing_data := updated_existing_data\<rparr>, w')
                | (Inr (new_count, total_count), updated_existing_data, w') \<Rightarrow>
                    (s\<lparr>existing_data := updated_existing_data,
                       new_papers_count := new_papers_count s + batch_new_count\<rparr>,
                     w'\<lparr>sleeps := sleeps w' @ [5]\<rparr>))
             else (s, w))"

text \<open>How one turn of the \<^verbatim>\<open>while\<close> loop ends: it goes back to the loop's test, or it breaks.\<close>

datatype 'a flow = Next 'a | Break 'a

text \<open>
  The body of \<^verbatim>\<open>while start < target_results and empty_page_count < max_empty_pages\<close>:
  \<^verbatim>\<open>
  time.sleep(5)
  try:
      ... the retry loop ...
      root = ET.fromstring(content)
      entry_count = 0
      for entry in entries: ...
      if entry_count == 0:
          empty_page_count += 1
          if empty_page_count >= max_empty_pages:
              break
      else:
          empty_page_count = 0
      start += batch_size
      if entry_count > 0:
          ... save ...
  except urllib.error.HTTPError as e:
      if e.code == 503:
          time.sleep(10)
          continue
      else:
          break
  except Exception as e:
      break
  \<close>
\<close>

definition loop_body ::
  "(json \<Rightarrow> string) \<Rightarrow> fetch_state \<Rightarrow> world \<Rightarrow> (fetch_state flow \<times> world) option" where
  "loop_body dumps s w =
     (case retry_loop 0 (server w) (sleeps w @ [5]) of
        None \<Rightarrow> None
      | Some (outcome, rest, slept) \<Rightarrow>
          (let w1 = w\<lparr>server := rest, sleeps := slept\<rparr> in
           case outcome of
             RaisedHTTP code \<Rightarrow>
               if code = 503 then Some (Next s, w1\<lparr>sleeps := slept @ [10]\<rparr>)
               else Some (Break s, w1)
           | RaisedOther \<Rightarrow> Some (Break s, w1)
           | Got ParseError \<Rightarrow> Some (Break s, w1)
           | Got (Feed entries) \<Rightarrow>
               (case fold process_entry entries (0, full_content s) of
                  (entry_count, contents) \<Rightarrow>
                    (let s1 = s\<lparr>full_content := contents\<rparr> in
                     if entry_count = 0 then
                       (let s2 = s1\<lparr>empty_page_count := empty_page_count s1 + 1\<rparr> in
                        if max_empty_pages \<le> empty_page_count s2 then Some (Break s2, w1)
                        else Some (Next (s2\<lparr>start := start s2 + batch_size\<rparr>), w1))
                     else
                       (let s2 = s1\<lparr>empty_page_count := 0, start := start s1 + batch_size\<rparr> in
                        case save_batch dumps entry_count s2 w1 of
                          (s3, w2) \<Rightarrow> Some (Next s3, w2))))))"

text \<open>
  The \<^verbatim>\<open>while\<close> loop. \<open>target_results\<close> is \<open>None\<close> for \<^verbatim>\<open>float('inf')\<close>. The loop
  gives \<open>None\<close> when the server's list ends before the loop does.
\<close>

function fetch_loop ::
  "(json \<Rightarrow> string) \<Rightarrow> int option \<Rightarrow> fetch_state \<Rightarrow> world \<Rightarrow> (fetch_state \<times> world) option" where
  "fetch_loop dumps target_results s w =
     (if (case target_results of None \<Rightarrow> True | Some t \<Rightarrow> start s < t) \<and>
         empty_page_count s < max_empty_pages
      then (case loop_body dumps s w of
              None \<Rightarrow> None
            | Some (Break s', w') \<Rightarrow> Some (s', w')
            | Some (Next s', w') \<Rightarrow> fetch_loop dumps target_results s' w')
      else Some (s, w))"
  by pat_completeness auto
termination
proof (relation "measure (\<lambda>(dumps, target_results, s, w). length (server w))", goal_cases)
  case 1
  show ?case by simp
next
  case (2 dumps target_results s w x2 x1 w' s')
  have no: "server (snd (next_outcome v)) = server v" for v
    by (simp add: next_outcome_def split: list.splits)
  have md: "server (snd (make_dir v)) = server v" for v
    using no [of v] by (auto simp: make_dir_def split: prod.splits io_outcome.splits)
  have fw: "server (snd (snd (file_write data buf v))) = server v" for data buf v
    using no [of v]
    by (auto simp: file_write_def to_disk_def split: prod.splits io_outcome.splits)
  have fc: "server (snd (file_close buf v)) = server v" for buf v
    using no [of v]
    by (auto simp: file_close_def to_disk_def split: prod.splits io_outcome.splits)
  have oa: "server (snd (open_append v)) = server v" for v
    using no [of v]
    by (auto simp: open_append_def split: prod.splits io_outcome.splits option.splits)
  have en: "server (snd (ensure_newline v)) = server v" for v
  proof -
    obtain o1 v1 where a: "next_outcome v = (o1, v1)" by (cases "next_outcome v")
    obtain o2 v2 where b: "next_outcome v1 = (o2, v2)" by (cases "next_outcome v1")
    have "server v1 = server v" "server v2 = server v1" using no [of v] no [of v1] a b by simp_all
    then show ?thesis using a b
      by (auto simp: ensure_newline_def to_disk_def split: option.splits io_outcome.splits)
  qed
  have wr: "server (snd (snd (snd (snd (write_records d items n ex buf v))))) = server v"
    for d items n ex buf v
  proof (induction items arbitrary: n ex buf v)
    case Nil
    show ?case by simp
  next
    case (Cons item items)
    obtain paper_id paper_data where item: "item = (paper_id, paper_data)" by (cases item)
    obtain ok buf1 v1 where f: "file_write (d (JObj paper_data) @ [newline]) buf v = (ok, buf1, v1)"
      by (cases "file_write (d (JObj paper_data) @ [newline]) buf v") auto
    have "server v1 = server v" using fw [of "d (JObj paper_data) @ [newline]" buf v] f by simp
    then show ?case using Cons [of _ _ buf v] Cons [of _ _ buf1 v1] f unfolding item
      by (auto split: sum.splits bool.splits)
  qed
  have ar: "server (snd (snd (snd (append_records d items ex v)))) = server v" for d items ex v
  proof -
    obtain e n ex1 buf v1 where a: "write_records d items 0 ex [] v = (e, n, ex1, buf, v1)"
      by (cases "write_records d items 0 ex [] v") auto
    have "server v1 = server v" using wr [of d items 0 ex "[]" v] a by simp
    then show ?thesis using a fc [of buf v1]
      by (auto simp: append_records_def split: prod.splits bool.splits)
  qed
  have sm: "server (snd (snd (save_metadata_files d items ex v))) = server v" for d items ex v
  proof -
    obtain k0 v0 where a: "make_dir v = (k0, v0)" by (cases "make_dir v")
    obtain k1 v1 where b: "ensure_newline v0 = (k1, v1)" by (cases "ensure_newline v0")
    obtain k2 v2 where c: "open_append v1 = (k2, v2)" by (cases "open_append v1")
    have "server v0 = server v" "server v1 = server v0" "server v2 = server v1"
      using md [of v] en [of v0] oa [of v1] a b c by simp_all
    then show ?thesis using a b c ar [of d items ex v2]
      by (auto simp: save_metadata_files_def split: bool.splits prod.splits option.splits)
  qed
  have sb: "server (snd (save_batch d k st v)) = server v" for d k st v
  proof (cases "select_new (drop (length (full_content st) - k) (full_content st))
      (existing_data st) ([], 0)")
    case (Inl e)
    then show ?thesis by (simp add: save_batch_def)
  next
    case (Inr selected)
    obtain batch_data batch_new_count where sel: "selected = (batch_data, batch_new_count)"
      by (cases selected)
    obtain r ex v1 where sv: "save_metadata_files d batch_data (existing_data st) v = (r, ex, v1)"
      by (cases "save_metadata_files d batch_data (existing_data st) v") auto
    have "server v1 = server v" using sm [of d batch_data "existing_data st" v] sv by simp
    then show ?thesis using Inr sel sv
      by (cases r) (auto simp: save_batch_def)
  qed
  have rl: "retry_loop n srv sl = Some (out, rest, sl') \<Longrightarrow> length rest < length srv"
    for n srv sl out rest sl'
  proof (induction srv arbitrary: n sl)
    case Nil
    then show ?case by simp
  next
    case (Cons r srv)
    show ?case
    proof (cases r)
      case (Content c)
      with Cons.prems show ?thesis by simp
    next
      case (HTTPError code)
      with Cons.prems Cons.IH [of "n + 1" "sl @ [10 * (n + 1)]"] show ?thesis
        by (auto simp: Let_def split: if_splits)
    next
      case OtherError
      with Cons.prems Cons.IH [of "n + 1" "sl @ [5 * (n + 1)]"] show ?thesis
        by (auto simp: Let_def split: if_splits)
    qed
  qed
  from 2 have lb: "loop_body dumps s w = Some (Next s', w')" by simp
  then obtain outcome rest slept where
    r: "retry_loop 0 (server w) (sleeps w @ [5]) = Some (outcome, rest, slept)"
    by (auto simp: loop_body_def split: option.splits)
  have less: "length rest < length (server w)" using r by (rule rl)
  have "server w' = rest"
  proof (cases outcome)
    case (Got content)
    show ?thesis
    proof (cases content)
      case ParseError
      with lb r Got show ?thesis by (simp add: loop_body_def Let_def)
    next
      case (Feed entries)
      obtain entry_count contents where
        f: "fold process_entry entries (0, full_content s) = (entry_count, contents)"
        by (cases "fold process_entry entries (0, full_content s)")
      show ?thesis
      proof (cases "entry_count = 0")
        case True
        with lb r Got Feed f show ?thesis
          by (auto simp: loop_body_def Let_def split: if_splits)
      next
        case False
        let ?s2 = "s\<lparr>full_content := contents, empty_page_count := 0,
                     start := start s + batch_size\<rparr>"
        let ?w1 = "w\<lparr>server := rest, sleeps := slept\<rparr>"
        obtain s3 w2 where b: "save_batch dumps entry_count ?s2 ?w1 = (s3, w2)"
          by (cases "save_batch dumps entry_count ?s2 ?w1")
        have "server w2 = rest" using sb [of dumps entry_count ?s2 ?w1] b by simp
        moreover have "w' = w2" using lb r Got Feed f False b
          by (simp add: loop_body_def Let_def)
        ultimately show ?thesis by simp
      qed
    qed
  next
    case (RaisedHTTP code)
    with lb r show ?thesis by (auto simp: loop_body_def Let_def split: if_splits)
  next
    case RaisedOther
    with lb r show ?thesis by (simp add: loop_body_def Let_def)
  qed
  with less show ?case by simp
qed

declare fetch_loop.simps [simp del]

text \<open>
  \<open>get_daily_papers\<close>. With a date range, \<^verbatim>\<open>max_results == 100\<close> becomes \<^verbatim>\<open>None\<close>
  (no limit); \<^verbatim>\<open>target_results\<close> is \<^verbatim>\<open>max_results\<close>, or infinite for \<^verbatim>\<open>None\<close>. The
  Known-ID Set is loaded from the directory as it is when the call starts. The query
  string goes to the server only and has no part in what the function does with the
  responses. The result is the pair \<open>(full_content, new_papers_count)\<close> with the world
  after the call.
\<close>

definition truthy :: "string option \<Rightarrow> bool" where
  "truthy x = (case x of None \<Rightarrow> False | Some s \<Rightarrow> s \<noteq> [])"

definition get_daily_papers ::
  "(json \<Rightarrow> string) \<Rightarrow> string \<Rightarrow> (uchar list \<times> disk_file) list option \<Rightarrow> int option \<Rightarrow>
   string option \<Rightarrow> string option \<Rightarrow> world \<Rightarrow>
   (((string \<times> pdict) list \<times> nat) \<times> world) option" where
  "get_daily_papers dumps current_year_month metadata_dir max_results start_date end_date w =
     (let max_results =
            (if truthy start_date \<and> truthy end_date \<and> max_results = Some 100 then None
             else max_results);
          existing = load_existing_metadata_files False current_year_month metadata_dir;
          s0 = \<lparr>start = 0, empty_page_count = 0, full_content = [],
                existing_data = existing, new_papers_count = 0\<rparr>
      in case fetch_loop dumps max_results s0 w of
           None \<Rightarrow> None
         | Some (s, w') \<Rightarrow> Some ((full_content s, new_papers_count s), w'))"

text \<open>
  The end of the date-range branch of \<open>main\<close>, after \<open>get_daily_papers\<close> has returned:
  \<^verbatim>\<open>
  all_category_data = full_content
  existing_data = load_existing_metadata_files(args.skip_no_date_files)
  new_count, total_count, updated_data = save_metadata_files(all_category_data, existing_data,
      skip_no_date_files=args.skip_no_date_files)
  \<close>
  No \<^verbatim>\<open>try\<close> is around the call: an exception of the writer leaves \<open>main\<close>.
\<close>

definition save_all ::
  "(json \<Rightarrow> string) \<Rightarrow> bool \<Rightarrow> string \<Rightarrow> (uchar list \<times> disk_file) list option \<Rightarrow>
   (string \<times> pdict) list \<Rightarrow> world \<Rightarrow> (py_error + nat \<times> nat) \<times> string set \<times> world" where
  "save_all dumps skip_no_date_files current_year_month metadata_dir all_category_data w =
     save_metadata_files dumps all_category_data
       (load_existing_metadata_files skip_no_date_files current_year_month metadata_dir) w"

section \<open>Notions used to state the properties of the writer and the fetcher\<close>

text \<open>The canonical ID the writer computes for an item of a batch.\<close>

definition canonical_id :: "string \<times> pdict \<Rightarrow> py_error + string" where
  "canonical_id item = normalize_value (dict_get (snd item) ''id'' (JStr (fst item)))"

definition clean_id :: "string \<times> pdict \<Rightarrow> string" where
  "clean_id item = (case canonical_id item of Inl e \<Rightarrow> [] | Inr c \<Rightarrow> c)"

text \<open>Every record of the batch has a canonical ID, and the Known-ID Set holds it.\<close>

definition all_known :: "(string \<times> pdict) list \<Rightarrow> string set \<Rightarrow> bool" where
  "all_known new_dict existing =
     list_all (\<lambda>item. case canonical_id item of Inl e \<Rightarrow> False | Inr c \<Rightarrow> c \<in> existing) new_dict"

text \<open>The line the writer appends for an item.\<close>

definition line_of :: "(json \<Rightarrow> string) \<Rightarrow> string \<times> pdict \<Rightarrow> string" where
  "line_of dumps item = dumps (JObj (snd item)) @ [newline]"

text \<open>None of the coming operations of the writer fails.\<close>

definition no_failure :: "world \<Rightarrow> bool" where
  "no_failure w =
     list_all (\<lambda>outcome. case outcome of Fails n \<Rightarrow> False | _ \<Rightarrow> True) (write_faults w)"

text \<open>The store file is not empty and does not end with a newline.\<close>

definition unterminated :: "world \<Rightarrow> bool" where
  "unterminated w = (file_bytes w \<noteq> [] \<and> last (file_bytes w) \<noteq> newline)"

text \<open>
  The key and the record an entry gives when nothing is in its way: it is no search-info
  entry, it has an \<^verbatim>\<open>id\<close> with text and a \<^verbatim>\<open>title\<close>, and building its dictionary
  raises nothing. The key is the canonical ID the fetcher derives from the entry's raw
  identifier.
\<close>

definition entry_record :: "xml_entry \<Rightarrow> (string \<times> pdict) option" where
  "entry_record entry =
     (if is_search_info entry then None
      else (case (e_id entry, e_title entry) of
              (Elem (Some entry_id), Elem title) \<Rightarrow>
                (case build_paper entry entry_id title (extract_paper_id entry_id) of
                   Inl e \<Rightarrow> None
                 | Inr paper \<Rightarrow> Some (extract_paper_id entry_id, paper))
            | _ \<Rightarrow> None))"

text \<open>
  The same in the terms of the feed. A complete entry is no search-info entry, has an
  \<^verbatim>\<open>id\<close> with text and a \<^verbatim>\<open>title\<close>, and none of its author names, its summary and
  its two dates is an element without text.
\<close>

definition raw_id :: "xml_entry \<Rightarrow> string option" where
  "raw_id entry = (case e_id entry of Missing \<Rightarrow> None | Elem text \<Rightarrow> text)"

definition complete_entry :: "xml_entry \<Rightarrow> bool" where
  "complete_entry entry =
     (\<not> is_search_info entry \<and> raw_id entry \<noteq> None \<and> e_title entry \<noteq> Missing \<and>
      Elem None \<notin> set (e_authors entry) \<and> e_summary entry \<noteq> Elem None \<and>
      e_published entry \<noteq> Elem None \<and> e_updated entry \<noteq> Elem None)"

definition title_text :: "xml_entry \<Rightarrow> string option" where
  "title_text entry = (case e_title entry of Missing \<Rightarrow> None | Elem text \<Rightarrow> text)"

text \<open>
  The canonical ID of an entry is \<open>normalize_arxiv_id\<close> of its raw identifier. The
  identifiers of the API are URLs with an \<^verbatim>\<open>/abs/\<close> segment; \<open>api_form\<close> holds of
  them, and of every identifier that does not name the domain.
\<close>

definition entry_canonical_id :: "xml_entry \<Rightarrow> string option" where
  "entry_canonical_id entry = map_option normalize_arxiv_id (raw_id entry)"

definition api_form :: "xml_entry \<Rightarrow> bool" where
  "api_form entry =
     (case raw_id entry of
        None \<Rightarrow> True
      | Some raw \<Rightarrow> contains ''/abs/'' raw \<or> \<not> contains ''arxiv.org'' raw)"

text \<open>The server's list is made of feeds and ends with \<open>k\<close> feeds without an entry.\<close>

definition ends_with_empty_feeds :: "nat \<Rightarrow> response list \<Rightarrow> bool" where
  "ends_with_empty_feeds k responses =
     (k \<le> length responses \<and>
      drop (length responses - k) responses = replicate k (Content (Feed [])) \<and>
      list_all (\<lambda>r. case r of Content c \<Rightarrow> True | _ \<Rightarrow> False) responses)"

text \<open>The record of the first entry of a list that gives a record with the key \<open>k\<close>.\<close>

fun first_record :: "string \<Rightarrow> xml_entry list \<Rightarrow> pdict option" where
  "first_record k [] = None"
| "first_record k (entry # entries) =
     (case entry_record entry of
        None \<Rightarrow> first_record k entries
      | Some (k', paper) \<Rightarrow> if k' = k then Some paper else first_record k entries)"

text \<open>The entries of the feeds among a list of responses, in order.\<close>

fun feed_entries :: "response list \<Rightarrow> xml_entry list" where
  "feed_entries [] = []"
| "feed_entries (Content (Feed entries) # rest) = entries @ feed_entries rest"
| "feed_entries (r # rest) = feed_entries rest"

text \<open>
  The entries a call has fetched: those of the feeds among the responses it has taken
  from the server's list, \<open>w\<close> being the world before the call and \<open>w'\<close> the one after it.
\<close>

definition fetched_entries :: "world \<Rightarrow> world \<Rightarrow> xml_entry list" where
  "fetched_entries w w' =
     feed_entries (take (length (server w) - length (server w')) (server w))"

text \<open>What one entry does to \<open>full_content\<close>.\<close>

definition add_entry :: "xml_entry \<Rightarrow> (string \<times> pdict) list \<Rightarrow> (string \<times> pdict) list" where
  "add_entry entry contents =
     (case entry_record entry of
        None \<Rightarrow> contents
      | Some (k, paper) \<Rightarrow> if k \<in> fst ` set contents then contents else contents @ [(k, paper)])"

fun flow_state :: "'a flow \<Rightarrow> 'a" where
  "flow_state (Next s) = s"
| "flow_state (Break s) = s"

text \<open>The number of entries of a page that the loop counts, given the dictionary so far.\<close>

definition count_entries :: "xml_entry list \<Rightarrow> (string \<times> pdict) list \<Rightarrow> nat" where
  "count_entries entries contents = fst (fold process_entry entries (0, contents))"

section \<open>Example data\<close>

text \<open>An entry with an identifier and a title and nothing else, and the world of a fresh run.\<close>

definition paper_entry :: "string \<Rightarrow> string \<Rightarrow> xml_entry" where
  "paper_entry entry_id title =
     \<lparr>e_title = Elem (Some title), e_id = Elem (Some entry_id), e_summary = Missing,
      e_authors = [], e_published = Missing, e_updated = Missing, e_categories = [],
      e_links = []\<rparr>"

definition fresh_world :: "response list \<Rightarrow> io_outcome list \<Rightarrow> world" where
  "fresh_world responses faults =
     \<lparr>server = responses, sleeps = [], arxiv_file = None, write_faults = faults\<rparr>"

definition initial_state :: fetch_state where
  "initial_state =
     \<lparr>start = 0, empty_page_count = 0, full_content = [], existing_data = {},
      new_papers_count = 0\<rparr>"

text \<open>A stand-in for \<^verbatim>\<open>json.dumps\<close> that writes only the \<^verbatim>\<open>id\<close> of a record.\<close>

definition id_line :: "json \<Rightarrow> string" where
  "id_line data =
     (case data of
        JObj kvs \<Rightarrow> (case map_of kvs ''id'' of Some (JStr paper_id) \<Rightarrow> paper_id | _ \<Rightarrow> [])
      | _ \<Rightarrow> [])"

section \<open>Facts about the string primitives\<close>

lemma contains_Nil [simp]: "contains [] s"
  by (cases s) auto

lemma contains_set: "contains sub s \<Longrightarrow> set sub \<subseteq> set s"
proof (induction s)
  case Nil
  then show ?case by simp
next
  case (Cons c cs)
  from Cons.prems consider "prefix sub (c # cs)" | "contains sub cs" by auto
  then show ?case
  proof cases
    case 1
    then show ?thesis by (rule set_mono_prefix)
  next
    case 2
    with Cons.IH show ?thesis by auto
  qed
qed

lemma contains_single: "contains [c] s \<longleftrightarrow> c \<in> set s"
  by (induction s) auto

lemma contains_appendI: "contains sub a \<Longrightarrow> contains sub (a @ b)"
proof (induction a)
  case Nil
  then show ?case by simp
next
  case (Cons c cs)
  from Cons.prems consider "prefix sub (c # cs)" | "contains sub cs" by auto
  then show ?case
  proof cases
    case 1
    then have "prefix sub ((c # cs) @ b)" by (rule prefix_prefix)
    then show ?thesis by simp
  next
    case 2
    with Cons.IH show ?thesis by simp
  qed
qed

lemma str_find_ge: "-1 \<le> str_find sub s"
  by (induction s) (auto simp: Let_def)

lemma str_find_none: "str_find sub s = -1 \<longleftrightarrow> \<not> contains sub s"
proof (induction s)
  case Nil
  then show ?case by simp
next
  case (Cons c cs)
  then show ?case using str_find_ge [of sub cs] by (auto simp: Let_def)
qed

lemma str_find_bound:
  "str_find sub s \<noteq> -1 \<Longrightarrow> nat (str_find sub s) + length sub \<le> length s"
proof (induction s)
  case Nil
  then show ?case by (simp split: if_splits)
next
  case (Cons c cs)
  show ?case
  proof (cases "prefix sub (c # cs)")
    case True
    then show ?thesis using prefix_length_le [OF True] by simp
  next
    case False
    with Cons.prems have "str_find sub cs \<noteq> -1" by (auto simp: Let_def)
    with Cons.IH False str_find_ge [of sub cs] show ?thesis by (auto simp: Let_def nat_add_distrib)
  qed
qed

lemma prefix_append_last:
  assumes "sep \<noteq> []" "last sep \<notin> set t"
  shows "prefix sep (u @ t) \<longleftrightarrow> prefix sep u"
proof
  assume "prefix sep (u @ t)"
  then have "prefix sep u \<or> (\<exists>us. sep = u @ us \<and> prefix us t)"
    by (simp add: prefix_append)
  then show "prefix sep u"
  proof
    assume "\<exists>us. sep = u @ us \<and> prefix us t"
    then obtain us where us: "sep = u @ us" "prefix us t" by blast
    show ?thesis
    proof (cases "us = []")
      case True
      with us show ?thesis by simp
    next
      case False
      with us have "last sep = last us" by simp
      moreover have "last us \<in> set us" using False by simp
      moreover have "set us \<subseteq> set t" using us(2) by (rule set_mono_prefix)
      ultimately show ?thesis using assms by auto
    qed
  qed
next
  assume "prefix sep u" then show "prefix sep (u @ t)" by (rule prefix_prefix)
qed

lemma str_find_append:
  assumes "sep \<noteq> []" "last sep \<notin> set t"
  shows "str_find sep (s @ t) = str_find sep s"
proof (induction s)
  case Nil
  have "last sep \<in> set sep" using assms(1) by simp
  then have "\<not> contains sep t" using contains_set [of sep t] assms(2) by blast
  then show ?case using assms by (simp add: str_find_none)
next
  case (Cons c cs)
  have "prefix sep ((c # cs) @ t) \<longleftrightarrow> prefix sep (c # cs)"
    by (rule prefix_append_last [OF assms])
  then show ?case using Cons by simp
qed

lemma contains_append:
  assumes "sep \<noteq> []" "last sep \<notin> set t"
  shows "contains sep (s @ t) \<longleftrightarrow> contains sep s"
proof -
  have "contains sep x \<longleftrightarrow> str_find sep x \<noteq> -1" for x
    by (simp add: str_find_none)
  then show ?thesis by (simp add: str_find_append [OF assms])
qed

lemma split_str_nonempty: "split_str sep s \<noteq> []"
  by (subst split_str.simps) (simp add: Let_def)

lemma last_split_append:
  "sep \<noteq> [] \<Longrightarrow> last sep \<notin> set t \<Longrightarrow> last (split_str sep (s @ t)) = last (split_str sep s) @ t"
proof (induction sep s rule: split_str.induct)
  case (1 sep s)
  note f = str_find_append [OF "1.prems", of s] 
  show ?case
  proof (cases "str_find sep s = -1")
    case True
    then show ?thesis using f by (simp add: split_str.simps [of sep s] split_str.simps [of sep "s @ t"])
  next
    case False
    then have b: "nat (str_find sep s) + length sep \<le> length s"
      using str_find_bound by blast
    have "last (split_str sep (s @ t)) = last (split_str sep (drop (nat (str_find sep s) + length sep) s @ t))"
      using False f b "1.prems" by (subst split_str.simps) (simp add: Let_def split_str_nonempty)
    also have "\<dots> = last (split_str sep (drop (nat (str_find sep s) + length sep) s)) @ t"
      using 1 False by simp
    also have "last (split_str sep (drop (nat (str_find sep s) + length sep) s)) = last (split_str sep s)"
      using False "1.prems" by (subst (2) split_str.simps) (simp add: Let_def split_str_nonempty)
    finally show ?thesis .
  qed
qed

lemma last_split_clean: "sep \<noteq> [] \<Longrightarrow> \<not> contains sep (last (split_str sep s))"
proof (induction sep s rule: split_str.induct)
  case (1 sep s)
  show ?case
  proof (cases "str_find sep s = -1")
    case True
    then show ?thesis using 1 by (subst split_str.simps) (simp add: str_find_none)
  next
    case False
    then show ?thesis using 1 by (subst split_str.simps) (simp add: Let_def split_str_nonempty)
  qed
qed

lemma str_find_single_absent: "c \<notin> set s \<Longrightarrow> str_find [c] s = -1"
  by (induction s) auto

lemma str_find_single_present:
  "c \<in> set s \<Longrightarrow> str_find [c] s = int (length (takeWhile (\<lambda>x. x \<noteq> c) s))"
proof (induction s)
  case Nil
  then show ?case by simp
next
  case (Cons a s)
  show ?case
  proof (cases "a = c")
    case True
    then show ?thesis by simp
  next
    case False
    with Cons.prems have "c \<in> set s" by simp
    then have "str_find [c] s = int (length (takeWhile (\<lambda>x. x \<noteq> c) s))" by (rule Cons.IH)
    then show ?thesis using False by (simp add: Let_def)
  qed
qed

lemma takeWhile_absent: "c \<notin> set s \<Longrightarrow> takeWhile (\<lambda>x. x \<noteq> c) s = s"
  by (induction s) auto

lemma takeWhile_stop: "takeWhile (\<lambda>x. x \<noteq> c) (s @ c # t) = takeWhile (\<lambda>x. x \<noteq> c) s"
  by (induction s) auto

lemma strip_version_takeWhile: "strip_version s = takeWhile (\<lambda>c. c \<noteq> CHR ''v'') s"
proof (cases "CHR ''v'' \<in> set s")
  case True
  then show ?thesis
    by (simp add: strip_version_def str_find_single_present takeWhile_eq_take [symmetric])
next
  case False
  then have "strip_version s = s" by (simp add: strip_version_def str_find_single_absent)
  then show ?thesis by (simp only: takeWhile_absent [OF False])
qed

lemma str_nat_digits: "set (str_nat n) \<subseteq> set ''0123456789''"
proof (induction n rule: str_nat.induct)
  case (1 n)
  have d: "digit_char k \<in> set ''0123456789''" if "k < 10" for k
    unfolding digit_char_def using that by (intro nth_mem) simp
  show ?case
  proof (cases "n < 10")
    case True
    then show ?thesis using d [of n] by (subst str_nat.simps) simp
  next
    case False
    then show ?thesis using 1 d [of "n mod 10"] by (subst str_nat.simps) simp
  qed
qed

lemma strip_url_append:
  assumes "CHR ''/'' \<notin> set t" "CHR ''g'' \<notin> set t"
  shows "strip_url (s @ t) = strip_url s @ t"
proof -
  have a: "contains ''/abs/'' (s @ t) = contains ''/abs/'' s"
    using assms by (intro contains_append) simp_all
  have b: "contains ''arxiv.org'' (s @ t) = contains ''arxiv.org'' s"
    using assms by (intro contains_append) simp_all
  have c: "last (split_str ''/abs/'' (s @ t)) = last (split_str ''/abs/'' s) @ t"
    using assms by (intro last_split_append) simp_all
  have d: "last (split_str ''/'' (s @ t)) = last (split_str ''/'' s) @ t"
    using assms by (intro last_split_append) simp_all
  show ?thesis by (simp add: strip_url_def a b c d)
qed

lemma strip_url_no_abs: "\<not> contains ''/abs/'' (strip_url s)"
proof -
  have "\<not> contains ''/'' (last (split_str ''/'' s))" by (rule last_split_clean) simp
  then have "CHR ''/'' \<notin> set (last (split_str ''/'' s))" by (simp add: contains_single)
  then have "\<not> contains ''/abs/'' (last (split_str ''/'' s))"
    using contains_set [of "''/abs/''" "last (split_str ''/'' s)"] by auto
  moreover have "\<not> contains ''/abs/'' (last (split_str ''/abs/'' s))" by (rule last_split_clean) simp
  ultimately show ?thesis by (simp add: strip_url_def)
qed

lemma normalize_no_v: "CHR ''v'' \<notin> set (normalize_arxiv_id s)"
  by (auto simp: normalize_arxiv_id_def strip_version_takeWhile dest: set_takeWhileD)

lemma normalize_no_abs: "\<not> contains ''/abs/'' (normalize_arxiv_id s)"
proof (cases "s = []")
  case True
  then show ?thesis by (simp add: normalize_arxiv_id_def)
next
  case False
  have "strip_url s = takeWhile (\<lambda>c. c \<noteq> CHR ''v'') (strip_url s) @ dropWhile (\<lambda>c. c \<noteq> CHR ''v'') (strip_url s)"
    by simp
  then have "contains ''/abs/'' (takeWhile (\<lambda>c. c \<noteq> CHR ''v'') (strip_url s)) \<Longrightarrow> contains ''/abs/'' (strip_url s)"
    using contains_appendI by metis
  then show ?thesis using False strip_url_no_abs [of s]
    by (auto simp: normalize_arxiv_id_def strip_version_takeWhile)
qed

lemma normalize_fixed:
  assumes "CHR ''v'' \<notin> set s" "\<not> contains ''/abs/'' s"
  shows "normalize_arxiv_id s = s"
proof -
  have "\<not> contains ''arxiv.org'' s" using contains_set [of "''arxiv.org''" s] assms(1) by auto
  then have "strip_url s = s" using assms(2) by (simp add: strip_url_def)
  moreover have "takeWhile (\<lambda>c. c \<noteq> CHR ''v'') s = s" using assms(1) by (rule takeWhile_absent)
  ultimately show ?thesis by (simp add: normalize_arxiv_id_def strip_version_takeWhile)
qed

section \<open>Properties of the ID normalizer\<close>

text \<open>
  Claim C10. For every input string \<open>s\<close>, the result of \<open>normalize_arxiv_id\<close> has no
  character \<^verbatim>\<open>v\<close> and no substring \<^verbatim>\<open>/abs/\<close>; hence a second normalization changes
  nothing, for every string and not only for canonical ones.
\<close>

theorem normalize_idempotent:
  "CHR ''v'' \<notin> set (normalize_arxiv_id s) \<and> \<not> contains ''/abs/'' (normalize_arxiv_id s) \<and>
   normalize_arxiv_id (normalize_arxiv_id s) = normalize_arxiv_id s"
  using normalize_no_v normalize_no_abs normalize_fixed by blast

theorem normalize_idempotent_witness:
  "normalize_arxiv_id ''http://arxiv.org/abs/solv-int/9901001v2'' = ''sol'' \<and>
   normalize_arxiv_id (normalize_arxiv_id ''http://arxiv.org/abs/solv-int/9901001v2'') = ''sol''"
proof -
  have a: "normalize_arxiv_id ''http://arxiv.org/abs/solv-int/9901001v2'' = ''sol''"
    by code_simp
  show ?thesis
    using normalize_idempotent [of "''http://arxiv.org/abs/solv-int/9901001v2''"]
    by (simp only: a)
qed

text \<open>
  Claim C9. Appending a version suffix, the letter \<^verbatim>\<open>v\<close> followed by the decimal numeral
  of \<open>N\<close>, to any identifier string does not change its normal form:
  \<^verbatim>\<open>normalize_arxiv_id(id + "v" + str(N)) = normalize_arxiv_id(id)\<close>. It holds for every
  string and every natural number \<open>N\<close>, the positive ones in particular.
\<close>

theorem normalize_version_suffix:
  "normalize_arxiv_id (s @ ''v'' @ str_nat N) = normalize_arxiv_id s"
proof -
  let ?t = "''v'' @ str_nat N"
  have t: "CHR ''/'' \<notin> set ?t" "CHR ''g'' \<notin> set ?t" using str_nat_digits [of N] by auto
  have "strip_version (strip_url (s @ ?t)) = strip_version (strip_url s)"
    by (simp only: strip_url_append [OF t]) (simp add: strip_version_takeWhile takeWhile_stop)
  moreover have "strip_version (strip_url []) = []"
    by (simp add: strip_url_def strip_version_takeWhile)
  ultimately show ?thesis by (simp add: normalize_arxiv_id_def)
qed

theorem normalize_version_suffix_witness:
  "normalize_arxiv_id (''http://arxiv.org/abs/2108.09112'' @ ''v'' @ str_nat 12) = ''2108.09112'' \<and>
   normalize_arxiv_id ''http://arxiv.org/abs/2108.09112'' = ''2108.09112''"
proof -
  have a: "normalize_arxiv_id ''http://arxiv.org/abs/2108.09112'' = ''2108.09112''"
    by code_simp
  show ?thesis
    using normalize_version_suffix [of "''http://arxiv.org/abs/2108.09112''" 12]
    by (simp only: a)
qed

lemma strip_trailing_digits_v:
  "CHR ''v'' \<in> set (strip_trailing_digits s) \<longleftrightarrow> CHR ''v'' \<in> set s"
proof -
  have "set s = set (rev s)" by simp
  also have "rev s = takeWhile is_digit (rev s) @ dropWhile is_digit (rev s)" by simp
  finally have "set s = set (takeWhile is_digit (rev s)) \<union> set (strip_trailing_digits s)"
    by (simp add: strip_trailing_digits_def del: takeWhile_dropWhile_id)
  moreover have "CHR ''v'' \<notin> set (takeWhile is_digit (rev s))"
    by (auto dest!: set_takeWhileD simp: is_digit_def)
  ultimately show ?thesis by auto
qed

text \<open>
  Claim C8. An identifier already in canonical form is a fixed point of the normalizer:
  when \<open>s\<close> has no substring \<^verbatim>\<open>/abs/\<close>, no substring \<^verbatim>\<open>arxiv.org\<close> (the source
  domain) and no \<^verbatim>\<open>v\<close> in front of its trailing digits (the part of \<open>s\<close> that
  precedes its final run of digits, which is all of \<open>s\<close> when it ends in no digit), then
  \<open>normalize_arxiv_id s = s\<close>, and normalizing twice is normalizing once.
\<close>

theorem normalize_canonical:
  assumes "\<not> contains ''/abs/'' s" "\<not> contains ''arxiv.org'' s"
    "CHR ''v'' \<notin> set (strip_trailing_digits s)"
  shows "normalize_arxiv_id s = s \<and> normalize_arxiv_id (normalize_arxiv_id s) = normalize_arxiv_id s"
  using assms normalize_fixed [of s] by (simp add: strip_trailing_digits_v)

theorem normalize_canonical_witness:
  "\<not> contains ''/abs/'' ''2108.09112'' \<and> \<not> contains ''arxiv.org'' ''2108.09112'' \<and>
   CHR ''v'' \<notin> set (strip_trailing_digits ''2108.09112'') \<and>
   normalize_arxiv_id ''2108.09112'' = ''2108.09112'' \<and>
   normalize_arxiv_id (normalize_arxiv_id ''2108.09112'') = normalize_arxiv_id ''2108.09112''"
proof -
  have a: "\<not> contains ''/abs/'' ''2108.09112''" by code_simp
  have b: "\<not> contains ''arxiv.org'' ''2108.09112''" by code_simp
  have c: "CHR ''v'' \<notin> set (strip_trailing_digits ''2108.09112'')" by code_simp
  show ?thesis using a b c normalize_canonical [OF a b c] by simp
qed

section \<open>Properties of the loader\<close>

lemma scan_lines_Un: "scan_lines ls (A \<union> B) = A \<union> scan_lines ls B"
proof (induction ls B rule: scan_lines.induct)
  case (5 data ls B)
  show ?case
  proof (cases "line_id data")
    case (Inl e)
    then show ?thesis by simp
  next
    case (Inr r)
    show ?thesis
    proof (cases r)
      case None
      with Inr 5 show ?thesis by simp
    next
      case (Some p)
      have "scan_lines ls (A \<union> insert p B) = A \<union> scan_lines ls (insert p B)"
        using 5(2) [OF Inr Some] .
      then show ?thesis using Inr Some by simp
    qed
  qed
qed simp_all

lemma scan_lines_union: "scan_lines ls ids = ids \<union> scan_lines ls {}"
  using scan_lines_Un [of ls ids "{}"] by simp

lemma scan_file_union: "scan_file f ids = ids \<union> scan_file f {}"
proof (cases f)
  case Unreadable
  then show ?thesis by simp
next
  case (Lines ls)
  then show ?thesis using scan_lines_union [of ls ids] by simp
qed

text \<open>
  On a line that does not end the scan the loop finds the canonical ID of the line, if
  it has one; on a line that ends the scan it raises.
\<close>

lemma line_id_record:
  "\<not> stops_scan (Parsed data) \<Longrightarrow> line_id data = Inr (record_id (Parsed data))"
proof (cases data)
  case (JObj kvs)
  assume r: "\<not> stops_scan (Parsed data)"
  show ?thesis
  proof (cases "map_of kvs ''id''")
    case None
    with JObj show ?thesis by simp
  next
    case (Some v)
    with r JObj show ?thesis by (cases v) (auto split: if_splits)
  qed
qed auto

lemma line_id_stops: "stops_scan (Parsed data) \<Longrightarrow> \<exists>e. line_id data = Inl e"
proof (cases data)
  case (JObj kvs)
  assume r: "stops_scan (Parsed data)"
  show ?thesis
  proof (cases "map_of kvs ''id''")
    case None
    with r JObj show ?thesis by simp
  next
    case (Some v)
    with r JObj show ?thesis by (cases v) (auto split: if_splits)
  qed
qed auto

lemma scan_lines_reached:
  "scan_lines ls ids = ids \<union> {p. \<exists>l \<in> set (reached ls). record_id l = Some p}"
proof (induction ls arbitrary: ids)
  case Nil
  then show ?case by (simp add: reached_def)
next
  case (Cons l ls)
  show ?case
  proof (cases "stops_scan l")
    case True
    then have r: "reached (l # ls) = []" by (simp add: reached_def)
    have "scan_lines (l # ls) ids = ids"
    proof (cases l)
      case (Parsed data)
      with True line_id_stops obtain e where "line_id data = Inl e" by blast
      with Parsed show ?thesis by simp
    qed (use True in auto)
    with r show ?thesis by simp
  next
    case False
    then have r: "reached (l # ls) = l # reached ls" by (simp add: reached_def)
    show ?thesis
    proof (cases l)
      case Blank
      then show ?thesis using Cons [of ids] r by auto
    next
      case BadJson
      then show ?thesis using Cons [of ids] r by auto
    next
      case (Parsed data)
      with False have li: "line_id data = Inr (record_id l)" by (simp add: line_id_record)
      show ?thesis
      proof (cases "record_id l")
        case None
        then show ?thesis using Parsed li Cons [of ids] r by auto
      next
        case (Some p)
        then show ?thesis using Parsed li Cons [of "insert p ids"] r by auto
      qed
    next
      case ReadFailure
      with False show ?thesis by simp
    qed
  qed
qed

lemma scan_file_reached: "scan_file f {} = reached_ids f"
proof (cases f)
  case Unreadable
  then show ?thesis by simp
next
  case (Lines ls)
  then show ?thesis using scan_lines_reached [of ls "{}"] by simp
qed

lemma reached_all: "read_through f \<Longrightarrow> reached_ids f = record_ids f"
proof (cases f)
  case Unreadable
  then show ?thesis by simp
next
  case (Lines ls)
  assume "read_through f"
  with Lines have "reached ls = ls"
    by (simp add: reached_def takeWhile_eq_all_conv list_all_iff)
  with Lines show ?thesis by simp
qed

text \<open>
  The loader's result for a directory of any content: the IDs it starts with and, for
  every file whose name passes the loader's test, the canonical IDs of the lines in front
  of the first one that ends the scan of that file.
\<close>

lemma load_files_union:
  "load_files skip cur listing ids =
     ids \<union> (\<Union>(n, f) \<in> set listing. if eligible skip cur n then reached_ids f else {})"
proof (induction listing arbitrary: ids)
  case Nil
  then show ?case by simp
next
  case (Cons a listing)
  obtain n f where a: "a = (n, f)" by (cases a)
  show ?case
  proof (cases "eligible skip cur n")
    case True
    then have "load_files skip cur (a # listing) ids = load_files skip cur listing (scan_file f ids)"
      unfolding a by (auto simp: eligible_def split: option.splits)
    then show ?thesis using True Cons [of "scan_file f ids"] scan_file_union [of f ids]
      unfolding a by (auto simp: scan_file_reached)
  next
    case False
    then have "load_files skip cur (a # listing) ids = load_files skip cur listing ids"
      unfolding a by (auto simp: eligible_def split: option.splits)
    then show ?thesis using False Cons [of ids] unfolding a by auto
  qed
qed

text \<open>
  Claim C7, amended. For a store directory that holds the store files of two periods, both with a
  six-digit suffix not after the current period, and beside them only files the loader
  does not read, \<open>load_existing_metadata_files\<close> returns the union, over the two files,
  of the canonical IDs of the parseable records in front of the first line that ends the
  scan of the file (a file that cannot be opened gives none). When both files can be
  opened and no line of them ends the scan, this is exactly the union of the canonical
  IDs of the parseable records of both files. The files are of any content, and the
  listing is any list with these entries, so the result does not depend on the order in
  which the files are read.
\<close>

theorem load_two_periods:
  assumes "match_snapshot n1 = Some (Some p1)" "match_snapshot n2 = Some (Some p2)"
    and "period_le p1 cur" "period_le p2 cur"
    and "set listing = {(n1, f1), (n2, f2)} \<union> others"
    and "\<forall>x \<in> others. \<not> eligible skip cur (fst x)"
  shows "load_existing_metadata_files skip cur (Some listing) = reached_ids f1 \<union> reached_ids f2 \<and>
    (read_through f1 \<and> read_through f2 \<longrightarrow>
       load_existing_metadata_files skip cur (Some listing) = record_ids f1 \<union> record_ids f2)"
proof -
  have e1: "eligible skip cur n1" and e2: "eligible skip cur n2"
    using assms(1-4) by (simp_all add: eligible_def)
  have o: "\<not> eligible skip cur (fst x)" if "x \<in> others" for x
    using assms(6) that by simp
  have "load_existing_metadata_files skip cur (Some listing) =
      (\<Union>(n, f) \<in> {(n1, f1), (n2, f2)} \<union> others. if eligible skip cur n then reached_ids f else {})"
    by (simp add: load_existing_metadata_files_def load_files_union [of skip cur listing "{}"] assms(5))
  also have "\<dots> = reached_ids f1 \<union> reached_ids f2"
    using e1 e2 o by (auto split: if_splits)
  finally show ?thesis
    by (simp add: reached_all)
qed

theorem load_two_periods_witness:
  "load_existing_metadata_files True ''202611''
     (Some [(map Ascii ''arxiv-metadata-oai-snapshot-202508.json'',
               Lines [Parsed (JObj [(''id'', JStr ''2101.00002'')]), Blank]),
            (map Ascii ''metadata-report-202508.md'', Unreadable),
            (map Ascii ''arxiv-metadata-oai-snapshot.json'',
               Lines [Parsed (JObj [(''id'', JStr ''2101.00003'')])]),
            (map Ascii ''arxiv-metadata-oai-snapshot-202507.json'',
               Lines [Parsed (JObj [(''id'', JStr ''http://arxiv.org/abs/2101.00001v1'')]), BadJson,
                      Parsed (JArr [])])])
   = {''2101.00001'', ''2101.00002''}"
proof -
  let ?n1 = "map Ascii ''arxiv-metadata-oai-snapshot-202507.json''"
  let ?n2 = "map Ascii ''arxiv-metadata-oai-snapshot-202508.json''"
  let ?f1 = "Lines [Parsed (JObj [(''id'', JStr ''http://arxiv.org/abs/2101.00001v1'')]), BadJson,
                    Parsed (JArr [])]"
  let ?f2 = "Lines [Parsed (JObj [(''id'', JStr ''2101.00002'')]), Blank]"
  let ?o1 = "(map Ascii ''metadata-report-202508.md'', Unreadable)"
  let ?o2 = "(map Ascii ''arxiv-metadata-oai-snapshot.json'',
               Lines [Parsed (JObj [(''id'', JStr ''2101.00003'')])])"
  have m1: "match_snapshot ?n1 = Some (Some (map Ascii ''202507''))" by code_simp
  have m2: "match_snapshot ?n2 = Some (Some (map Ascii ''202508''))" by code_simp
  have m3: "\<forall>x \<in> {?o1, ?o2}. \<not> eligible True ''202611'' (fst x)" by code_simp
  have l1: "period_le (map Ascii ''202507'') ''202611''" by code_simp
  have l2: "period_le (map Ascii ''202508'') ''202611''" by code_simp
  have s: "read_through ?f1 \<and> read_through ?f2" by simp
  have d: "set [(?n2, ?f2), ?o1, ?o2, (?n1, ?f1)] = {(?n1, ?f1), (?n2, ?f2)} \<union> {?o1, ?o2}" by auto
  have a: "normalize_arxiv_id ''http://arxiv.org/abs/2101.00001v1'' = ''2101.00001''" by code_simp
  have b: "normalize_arxiv_id ''2101.00002'' = ''2101.00002''" by code_simp
  have r: "record_ids ?f1 \<union> record_ids ?f2 = {''2101.00001'', ''2101.00002''}"
    by (auto simp: a b)
  show ?thesis
    using load_two_periods [OF m1 m2 l1 l2 d m3, THEN conjunct2, rule_format, OF s]
    by (simp only: r)
qed

text \<open>
  The claim as it is written does not hold for every store directory: a line that is
  JSON but no object (here the number \<^verbatim>\<open>5\<close>) makes the loop raise an exception that
  only the handler around the whole file catches, so the records behind that line are
  not loaded, though they are parseable records of the file.
\<close>

theorem scan_cut_short:
  "load_existing_metadata_files False ''202611''
     (Some [(map Ascii ''arxiv-metadata-oai-snapshot-202507.json'',
               Lines [Parsed (JNum 5), Parsed (JObj [(''id'', JStr ''2101.00001'')])]),
            (map Ascii ''arxiv-metadata-oai-snapshot-202508.json'',
               Lines [Parsed (JObj [(''id'', JStr ''2101.00002'')])])])
     = {''2101.00002''} \<and>
   record_id (Parsed (JObj [(''id'', JStr ''2101.00001'')])) = Some ''2101.00001'' \<and>
   ''2101.00001'' \<in>
     record_ids (Lines [Parsed (JNum 5), Parsed (JObj [(''id'', JStr ''2101.00001'')])])"
proof -
  have m1: "match_snapshot (map Ascii ''arxiv-metadata-oai-snapshot-202507.json'') =
      Some (Some (map Ascii ''202507''))" by code_simp
  have m2: "match_snapshot (map Ascii ''arxiv-metadata-oai-snapshot-202508.json'') =
      Some (Some (map Ascii ''202508''))" by code_simp
  have l1: "period_le (map Ascii ''202507'') ''202611''" by code_simp
  have l2: "period_le (map Ascii ''202508'') ''202611''" by code_simp
  have a: "normalize_arxiv_id ''2101.00001'' = ''2101.00001''" by code_simp
  have b: "normalize_arxiv_id ''2101.00002'' = ''2101.00002''" by code_simp
  show ?thesis
    by (simp add: load_existing_metadata_files_def m1 m2 l1 l2 a b del: map_map list.map)
qed

section \<open>Properties of the writer\<close>

text \<open>
  What the operations of the writer do to the world: none touches the server or the
  log of the sleeps, and the bytes of the store file and of the buffer are never taken
  back, only added to.
\<close>

lemma next_outcome_frame:
  "next_outcome w = (out, w') \<Longrightarrow>
   server w' = server w \<and> sleeps w' = sleeps w \<and> arxiv_file w' = arxiv_file w"
  by (auto simp: next_outcome_def split: list.splits)

lemma next_outcome_bytes: "next_outcome w = (out, w') \<Longrightarrow> file_bytes w' = file_bytes w"
  by (auto simp: next_outcome_def file_bytes_def split: list.splits)

lemma next_outcome_quiet:
  "no_failure w \<Longrightarrow>
   \<exists>out w'. next_outcome w = (out, w') \<and> (\<forall>n. out \<noteq> Fails n) \<and> no_failure w'"
  by (cases "write_faults w") (auto simp: next_outcome_def no_failure_def split: io_outcome.splits)

lemma to_disk_frame [simp]:
  "server (to_disk data w) = server w" "sleeps (to_disk data w) = sleeps w"
  "write_faults (to_disk data w) = write_faults w"
  "file_bytes (to_disk data w) = file_bytes w @ data"
  "arxiv_file (to_disk data w) = Some (file_bytes w @ data)"
  by (simp_all add: to_disk_def file_bytes_def)

lemma make_dir_frame:
  "make_dir w = (ok, w') \<Longrightarrow>
   server w' = server w \<and> sleeps w' = sleeps w \<and> arxiv_file w' = arxiv_file w"
  by (auto simp: make_dir_def split: prod.splits io_outcome.splits dest: next_outcome_frame)

lemma make_dir_bytes: "make_dir w = (ok, w') \<Longrightarrow> file_bytes w' = file_bytes w"
  by (auto simp: file_bytes_def dest: make_dir_frame)

lemma file_write_frame:
  "file_write data b w = (ok, b', w') \<Longrightarrow> server w' = server w \<and> sleeps w' = sleeps w"
  by (auto simp: file_write_def split: prod.splits io_outcome.splits dest: next_outcome_frame)

lemma file_write_bytes:
  "file_write data b w = (ok, b', w') \<Longrightarrow> file_bytes w' @ b' = file_bytes w @ b @ data"
proof -
  assume a: "file_write data b w = (ok, b', w')"
  obtain out w1 where n: "next_outcome w = (out, w1)" by (cases "next_outcome w")
  note f = next_outcome_bytes [OF n]
  show ?thesis
  proof (cases out)
    case (Fails k)
    with a n have "b' = drop k (b @ data)" "w' = to_disk (take k (b @ data)) w1"
      by (simp_all add: file_write_def)
    then have "file_bytes w' @ b' = file_bytes w @ (take k (b @ data) @ drop k (b @ data))"
      using f by (simp del: take_append drop_append append_take_drop_id)
    then show ?thesis by (simp only: append_take_drop_id)
  qed (use a n f in \<open>auto simp: file_write_def\<close>)
qed

lemma file_write_prefix:
  "file_write data b w = (ok, b', w') \<Longrightarrow> prefix (file_bytes w) (file_bytes w')"
  by (auto simp: file_write_def split: prod.splits io_outcome.splits dest: next_outcome_bytes)

lemma file_close_frame:
  "file_close b w = (ok, w') \<Longrightarrow> server w' = server w \<and> sleeps w' = sleeps w"
  by (auto simp: file_close_def split: prod.splits io_outcome.splits dest: next_outcome_frame)

lemma file_close_bytes:
  "file_close b w = (ok, w') \<Longrightarrow>
   \<exists>p. prefix p b \<and> file_bytes w' = file_bytes w @ p \<and> (ok \<longrightarrow> p = b)"
  by (auto simp: file_close_def take_is_prefix split: prod.splits io_outcome.splits
      dest: next_outcome_bytes)

lemma file_close_exists: "file_close b w = (ok, w') \<Longrightarrow> arxiv_file w' = Some (file_bytes w')"
  by (auto simp: file_close_def split: prod.splits io_outcome.splits)

lemma open_append_frame:
  "open_append w = (ok, w') \<Longrightarrow> server w' = server w \<and> sleeps w' = sleeps w"
  by (auto simp: open_append_def split: prod.splits io_outcome.splits option.splits
      dest: next_outcome_frame)

lemma open_append_bytes: "open_append w = (ok, w') \<Longrightarrow> file_bytes w' = file_bytes w"
  by (auto simp: open_append_def file_bytes_def split: prod.splits io_outcome.splits option.splits
      dest: next_outcome_frame)

lemma ensure_newline_frame:
  "ensure_newline w = (ok, w') \<Longrightarrow> server w' = server w \<and> sleeps w' = sleeps w"
proof -
  assume a: "ensure_newline w = (ok, w')"
  obtain o1 w1 where n1: "next_outcome w = (o1, w1)" by (cases "next_outcome w")
  obtain o2 w2 where n2: "next_outcome w1 = (o2, w2)" by (cases "next_outcome w1")
  note f1 = next_outcome_frame [OF n1] and f2 = next_outcome_frame [OF n2]
  show ?thesis using a n1 n2 f1 f2
    by (auto simp: ensure_newline_def split: option.splits if_splits io_outcome.splits)
qed

lemma ensure_newline_bytes:
  "ensure_newline w = (ok, w') \<Longrightarrow>
   (file_bytes w' = file_bytes w \<or> unterminated w \<and> file_bytes w' = file_bytes w @ [newline]) \<and>
   (ok \<longrightarrow> file_bytes w' = (if unterminated w then file_bytes w @ [newline] else file_bytes w))"
proof -
  assume a: "ensure_newline w = (ok, w')"
  obtain o1 w1 where n1: "next_outcome w = (o1, w1)" by (cases "next_outcome w")
  obtain o2 w2 where n2: "next_outcome w1 = (o2, w2)" by (cases "next_outcome w1")
  note f1 = next_outcome_bytes [OF n1] and f2 = next_outcome_bytes [OF n2]
  have t: "take n [newline] = [] \<or> take n [newline] = [newline]" for n by (cases n) simp_all
  show ?thesis
  proof (cases "arxiv_file w")
    case None
    with a show ?thesis by (simp add: ensure_newline_def unterminated_def file_bytes_def)
  next
    case (Some bytes)
    then have fb: "file_bytes w = bytes" by (simp add: file_bytes_def)
    show ?thesis
    proof (cases "bytes = []")
      case True
      with a Some fb show ?thesis by (simp add: ensure_newline_def unterminated_def)
    next
      case False
      show ?thesis
      proof (cases "last bytes = newline")
        case True
        with a Some False n1 f1 fb show ?thesis
          by (auto simp: ensure_newline_def unterminated_def split: io_outcome.splits)
      next
        case nl: False
        then have u: "unterminated w" using False fb by (simp add: unterminated_def)
        show ?thesis
        proof (cases o1)
          case (Fails n)
          with a Some False n1 f1 show ?thesis by (simp add: ensure_newline_def)
        next
          case Succeeds
          show ?thesis
          proof (cases o2)
            case (Fails n)
            with a Some False nl n1 n2 Succeeds f1 f2 u t [of n] show ?thesis
              by (auto simp: ensure_newline_def)
          qed (use a Some False nl n1 n2 Succeeds f1 f2 u in \<open>auto simp: ensure_newline_def\<close>)
        next
          case Buffers
          show ?thesis
          proof (cases o2)
            case (Fails n)
            with a Some False nl n1 n2 Buffers f1 f2 u t [of n] show ?thesis
              by (auto simp: ensure_newline_def)
          qed (use a Some False nl n1 n2 Buffers f1 f2 u in \<open>auto simp: ensure_newline_def\<close>)
        qed
      qed
    qed
  qed
qed

lemma write_records_frame:
  "write_records dumps new_dict n K b w = (e, n', K', b', w') \<Longrightarrow>
   server w' = server w \<and> sleeps w' = sleeps w"
proof (induction new_dict arbitrary: n K b w)
  case Nil
  then show ?case by simp
next
  case (Cons item rest)
  obtain paper_id paper_data where item: "item = (paper_id, paper_data)" by (cases item)
  obtain ok b1 w1 where fw: "file_write (dumps (JObj paper_data) @ [newline]) b w = (ok, b1, w1)"
    by (cases "file_write (dumps (JObj paper_data) @ [newline]) b w") auto
  note s1 = file_write_frame [OF fw]
  show ?case
    using Cons.prems Cons.IH [of _ _ b w] Cons.IH [of _ _ b1 w1] s1 fw unfolding item
    by (auto split: sum.splits if_splits bool.splits)
qed

lemma write_records_accepts:
  "write_records dumps new_dict n K b w = (e, n', K', b', w') \<Longrightarrow>
   \<exists>accepted failing. subseq (accepted @ failing) new_dict \<and> length failing \<le> 1 \<and>
     (e = None \<longrightarrow> failing = []) \<and>
     file_bytes w' @ b' = file_bytes w @ b @ concat (map (line_of dumps) (accepted @ failing)) \<and>
     prefix (file_bytes w) (file_bytes w') \<and>
     (\<forall>x \<in> set (accepted @ failing). canonical_id x = Inr (clean_id x)) \<and>
     distinct (map clean_id (accepted @ failing)) \<and>
     clean_id ` set (accepted @ failing) \<inter> K = {} \<and>
     K' = K \<union> clean_id ` set accepted \<and> n' = n + length accepted"
proof (induction new_dict arbitrary: n K b w)
  case Nil
  then show ?case by (intro exI [of _ "[]"]) simp
next
  case (Cons item rest)
  obtain paper_id paper_data where item: "item = (paper_id, paper_data)" by (cases item)
  show ?case
  proof (cases "canonical_id item")
    case (Inl err)
    with Cons.prems have "e = Some err" "n' = n" "K' = K" "w' = w" "b' = b"
      by (simp_all add: item canonical_id_def)
    then show ?thesis by (intro exI [of _ "[]"]) simp
  next
    case (Inr c)
    then have c: "clean_id item = c" by (simp add: clean_id_def)
    show ?thesis
    proof (cases "c \<in> K")
      case True
      with Cons.prems Inr have "write_records dumps rest n K b w = (e, n', K', b', w')"
        by (simp add: item canonical_id_def)
      from Cons.IH [OF this] obtain accepted failing where a: "subseq (accepted @ failing) rest"
        "length failing \<le> 1" "e = None \<longrightarrow> failing = []"
        "file_bytes w' @ b' = file_bytes w @ b @ concat (map (line_of dumps) (accepted @ failing))"
        "prefix (file_bytes w) (file_bytes w')"
        "\<forall>x \<in> set (accepted @ failing). canonical_id x = Inr (clean_id x)"
        "distinct (map clean_id (accepted @ failing))"
        "clean_id ` set (accepted @ failing) \<inter> K = {}"
        "K' = K \<union> clean_id ` set accepted" "n' = n + length accepted"
        by blast
      from a(1) have "subseq (accepted @ failing) (item # rest)" by (rule list_emb_Cons)
      with a(2-) show ?thesis by blast
    next
      case False
      obtain ok b1 w1 where fw: "file_write (line_of dumps item) b w = (ok, b1, w1)"
        by (cases "file_write (line_of dumps item) b w") auto
      note by1 = file_write_bytes [OF fw] and pr1 = file_write_prefix [OF fw]
      show ?thesis
      proof (cases ok)
        case False': False
        with Cons.prems Inr False fw have eq: "e = Some OSError" "n' = n" "K' = K" "w' = w1" "b' = b1"
          by (simp_all add: item canonical_id_def line_of_def)
        have "subseq ([] @ [item]) (item # rest)" by simp
        moreover have "length [item] \<le> 1" by simp
        moreover have "file_bytes w' @ b' =
            file_bytes w @ b @ concat (map (line_of dumps) ([] @ [item]))"
          using by1 eq by simp
        moreover have "\<forall>x \<in> set ([] @ [item]). canonical_id x = Inr (clean_id x)"
          using Inr c by simp
        moreover have "clean_id ` set ([] @ [item]) \<inter> K = {}" using c False by simp
        moreover have "distinct (map clean_id ([] @ [item]))" by simp
        moreover have "K' = K \<union> clean_id ` set []" "n' = n + length ([] :: (string \<times> pdict) list)"
          using eq by simp_all
        moreover have "e = None \<longrightarrow> [item] = []" using eq by simp
        moreover have "prefix (file_bytes w) (file_bytes w')" using pr1 eq by simp
        ultimately show ?thesis by blast
      next
        case True
        with Cons.prems Inr False fw
        have "write_records dumps rest (n + 1) (insert c K) b1 w1 = (e, n', K', b', w')"
          by (simp add: item canonical_id_def line_of_def)
        from Cons.IH [OF this] obtain accepted failing where a: "subseq (accepted @ failing) rest"
          "length failing \<le> 1" "e = None \<longrightarrow> failing = []"
          "file_bytes w' @ b' = file_bytes w1 @ b1 @ concat (map (line_of dumps) (accepted @ failing))"
          "prefix (file_bytes w1) (file_bytes w')"
          "\<forall>x \<in> set (accepted @ failing). canonical_id x = Inr (clean_id x)"
          "distinct (map clean_id (accepted @ failing))"
          "clean_id ` set (accepted @ failing) \<inter> insert c K = {}"
          "K' = insert c K \<union> clean_id ` set accepted" "n' = n + 1 + length accepted"
          by blast
        let ?acc = "item # accepted"
        have "subseq (?acc @ failing) (item # rest)" using a(1) by simp
        moreover have "file_bytes w' @ b' =
            file_bytes w @ b @ concat (map (line_of dumps) (?acc @ failing))"
          using a(4) by1 by simp
        moreover have "prefix (file_bytes w) (file_bytes w')"
          using a(5) pr1 by (rule prefix_order.trans [rotated])
        moreover have "\<forall>x \<in> set (?acc @ failing). canonical_id x = Inr (clean_id x)"
          using a(6) Inr c by simp
        moreover have "distinct (map clean_id (?acc @ failing))" using a(7,8) c by auto
        moreover have "clean_id ` set (?acc @ failing) \<inter> K = {}" using a(8) c False by auto
        moreover have "K' = K \<union> clean_id ` set ?acc" using a(9) c by auto
        moreover have "n' = n + length ?acc" using a(10) by simp
        ultimately show ?thesis using a(2,3) by blast
      qed
    qed
  qed
qed

lemma save_metadata_files_cases:
  assumes "save_metadata_files dumps new_dict K w = (r, K', w')"
  obtains (dir_failed) "make_dir w = (False, w')" "r = Inl OSError" "K' = K"
  | (newline_failed) w0 where "make_dir w = (True, w0)" "ensure_newline w0 = (False, w')"
      "r = Inl OSError" "K' = K"
  | (open_failed) w0 w1 where "make_dir w = (True, w0)" "ensure_newline w0 = (True, w1)"
      "open_append w1 = (False, w')" "r = Inl OSError" "K' = K"
  | (written) w0 w1 w2 e n b w3 ok where "make_dir w = (True, w0)" "ensure_newline w0 = (True, w1)"
      "open_append w1 = (True, w2)"
      "write_records dumps new_dict 0 K [] w2 = (e, n, K', b, w3)"
      "file_close b w3 = (ok, w')"
      "r = (if ok then (case e of Some err \<Rightarrow> Inl err | None \<Rightarrow> Inr (n, card K')) else Inl OSError)"
proof -
  obtain k0 w0 where md: "make_dir w = (k0, w0)" by (cases "make_dir w")
  obtain k1 w1 where en: "ensure_newline w0 = (k1, w1)" by (cases "ensure_newline w0")
  obtain k2 w2 where oa: "open_append w1 = (k2, w2)" by (cases "open_append w1")
  obtain e n K2 b w3 where wr: "write_records dumps new_dict 0 K [] w2 = (e, n, K2, b, w3)"
    by (cases "write_records dumps new_dict 0 K [] w2") auto
  obtain ok w4 where fc: "file_close b w3 = (ok, w4)" by (cases "file_close b w3")
  show ?thesis
  proof (cases k0)
    case False
    with assms md have "r = Inl OSError" "K' = K" "w' = w0"
      by (simp_all add: save_metadata_files_def)
    with md False show ?thesis by (intro dir_failed) simp_all
  next
    case k0: True
    show ?thesis
    proof (cases k1)
      case False
      with assms md k0 en have "r = Inl OSError" "K' = K" "w' = w1"
        by (simp_all add: save_metadata_files_def)
      with md k0 en False show ?thesis by (intro newline_failed [of w0]) simp_all
    next
      case k1: True
      show ?thesis
      proof (cases k2)
        case False
        with assms md k0 en k1 oa have "r = Inl OSError" "K' = K" "w' = w2"
          by (simp_all add: save_metadata_files_def)
        with md k0 en k1 oa False show ?thesis by (intro open_failed [of w0 w1]) simp_all
      next
        case k2: True
        have ar: "append_records dumps new_dict K w2 =
            (if ok then e else Some OSError, n, K2, w4)"
          using wr fc by (simp add: append_records_def)
        have k: "K2 = K'" "w4 = w'"
          using assms md k0 en k1 oa k2 ar
          by (cases ok; cases e; simp add: save_metadata_files_def)+
        have r: "r = (if ok then (case e of Some err \<Rightarrow> Inl err | None \<Rightarrow> Inr (n, card K'))
            else Inl OSError)"
          using assms md k0 en k1 oa k2 ar
          by (cases ok; cases e; simp add: save_metadata_files_def)
        have md': "make_dir w = (True, w0)" using md k0 by simp
        have en': "ensure_newline w0 = (True, w1)" using en k1 by simp
        have oa': "open_append w1 = (True, w2)" using oa k2 by simp
        show ?thesis
          using md' en' oa' wr [unfolded k] fc [unfolded k] r by (rule written)
      qed
    qed
  qed
qed

lemma loaded_ids_reached:
  assumes "K = load_existing_metadata_files skip cur (Some listing)"
    and "(name, f) \<in> set listing" "eligible skip cur name"
  shows "reached_ids f \<subseteq> K"
  using assms by (auto simp: load_existing_metadata_files_def load_files_union [of skip cur listing "{}"])

text \<open>
  Claim C1, amended. For every batch given to \<open>save_metadata_files\<close>, whether the call
  returns or raises: the records whose lines the call hands to the store file are a
  subsequence of the batch, \<open>accepted\<close> followed by at most one record \<open>failing\<close>, the one
  whose write raised. Each of them has a canonical ID, \<open>normalize_arxiv_id\<close> of its own
  \<^verbatim>\<open>id\<close> field; these IDs are pairwise distinct and none is in the Known-ID Set the call
  received, which says that each was absent from the set at the moment of its write
  decision, the set having grown by every ID accepted before it. The set after the call
  is the old one with exactly the IDs of \<open>accepted\<close> added; the ID of a record whose
  write raised is not added, though bytes of its line may have reached the file. What the
  file has gained is a prefix \<open>p\<close> of the lines of these records, behind the newline that
  may have been put after an unterminated last line; when the call returns, it is all
  the lines of \<open>accepted\<close>, and the counts returned are their number and the size of the
  set. When the Known-ID Set is what the loader returned for a directory, no record
  handed to the file has the canonical ID of a parseable record that the loader reached
  in a file it read. Nothing is said about the store files the loader does not read:
  uniqueness of \<^verbatim>\<open>id\<close> in the union of all store files does not follow.
\<close>

theorem store_uniqueness:
  assumes "save_metadata_files dumps new_dict K w = (r, K', w')"
  shows "\<exists>accepted failing p.
     subseq (accepted @ failing) new_dict \<and> length failing \<le> 1 \<and>
     (\<forall>x \<in> set (accepted @ failing). canonical_id x = Inr (clean_id x)) \<and>
     distinct (map clean_id (accepted @ failing)) \<and>
     clean_id ` set (accepted @ failing) \<inter> K = {} \<and>
     K' = K \<union> clean_id ` set accepted \<and>
     prefix p (concat (map (line_of dumps) (accepted @ failing))) \<and>
     (file_bytes w' = file_bytes w @ p \<or>
      unterminated w \<and> file_bytes w' = file_bytes w @ [newline] @ p) \<and>
     (\<forall>n t. r = Inr (n, t) \<longrightarrow>
        failing = [] \<and> p = concat (map (line_of dumps) accepted) \<and>
        n = length accepted \<and> t = card K') \<and>
     (\<forall>skip cur listing. K = load_existing_metadata_files skip cur (Some listing) \<longrightarrow>
        (\<forall>(name, f) \<in> set listing. eligible skip cur name \<longrightarrow>
           clean_id ` set (accepted @ failing) \<inter> reached_ids f = {}))"
proof -
  have unwritten: ?thesis
    if "r = Inl OSError" "K' = K"
      "file_bytes w' = file_bytes w \<or> unterminated w \<and> file_bytes w' = file_bytes w @ [newline]"
  proof -
    have "subseq ([] @ []) new_dict" by simp
    then show ?thesis using that(2,3)
      by (intro exI [of _ "[]"]) (simp add: that(1))
  qed
  from assms show ?thesis
  proof (cases rule: save_metadata_files_cases)
    case dir_failed
    show ?thesis
      by (rule unwritten) (use dir_failed make_dir_bytes [OF dir_failed(1)] in simp_all)
  next
    case (newline_failed w0)
    show ?thesis
      by (rule unwritten)
        (use newline_failed make_dir_bytes [OF newline_failed(1)]
          ensure_newline_bytes [OF newline_failed(2)] in \<open>auto simp: unterminated_def\<close>)
  next
    case (open_failed w0 w1)
    show ?thesis
      by (rule unwritten)
        (use open_failed make_dir_bytes [OF open_failed(1)]
          ensure_newline_bytes [OF open_failed(2)] open_append_bytes [OF open_failed(3)]
          in \<open>auto simp: unterminated_def\<close>)
  next
    case (written w0 w1 w2 e n b w3 ok)
    from write_records_accepts [OF written(4)] obtain accepted failing where
      a: "subseq (accepted @ failing) new_dict" "length failing \<le> 1" "e = None \<longrightarrow> failing = []"
        "file_bytes w3 @ b = file_bytes w2 @ [] @ concat (map (line_of dumps) (accepted @ failing))"
        "prefix (file_bytes w2) (file_bytes w3)"
        "\<forall>x \<in> set (accepted @ failing). canonical_id x = Inr (clean_id x)"
        "distinct (map clean_id (accepted @ failing))"
        "clean_id ` set (accepted @ failing) \<inter> K = {}"
        "K' = K \<union> clean_id ` set accepted" "n = 0 + length accepted"
      by blast
    from a(5) obtain x where x: "file_bytes w3 = file_bytes w2 @ x" by (auto simp: prefix_def)
    with a(4) have xb: "x @ b = concat (map (line_of dumps) (accepted @ failing))" by simp
    from file_close_bytes [OF written(5)] obtain q where
      q: "prefix q b" "file_bytes w' = file_bytes w3 @ q" "ok \<longrightarrow> q = b" by blast
    let ?p = "x @ q"
    have p: "prefix ?p (concat (map (line_of dumps) (accepted @ failing)))"
      using q(1) xb [symmetric] by simp
    have w2: "file_bytes w2 = file_bytes w \<or>
        unterminated w \<and> file_bytes w2 = file_bytes w @ [newline]"
      using make_dir_bytes [OF written(1)] ensure_newline_bytes [OF written(2)]
        open_append_bytes [OF written(3)] by (auto simp: unterminated_def)
    have f: "file_bytes w' = file_bytes w @ ?p \<or>
        unterminated w \<and> file_bytes w' = file_bytes w @ [newline] @ ?p"
      using w2 q(2) x by auto
    have c: "\<forall>n' t. r = Inr (n', t) \<longrightarrow>
        failing = [] \<and> ?p = concat (map (line_of dumps) accepted) \<and>
        n' = length accepted \<and> t = card K'"
    proof (intro allI impI)
      fix n' t
      assume r: "r = Inr (n', t)"
      with written(6) have ok: "ok" by (auto split: if_splits)
      with r written(6) have e: "e = None" and nt: "n' = n" "t = card K'"
        by (cases e; simp)+
      from e a(3) have fl: "failing = []" by simp
      from ok q(3) xb fl have "?p = concat (map (line_of dumps) accepted)" by simp
      with fl nt a(10) show "failing = [] \<and> ?p = concat (map (line_of dumps) accepted) \<and>
        n' = length accepted \<and> t = card K'" by simp
    qed
    have d: "\<forall>skip cur listing. K = load_existing_metadata_files skip cur (Some listing) \<longrightarrow>
        (\<forall>(name, f) \<in> set listing. eligible skip cur name \<longrightarrow>
           clean_id ` set (accepted @ failing) \<inter> reached_ids f = {})"
    proof (intro allI impI ballI, clarify)
      fix skip cur listing name f
      assume "K = load_existing_metadata_files skip cur (Some listing)"
        "(name, f) \<in> set listing" "eligible skip cur name"
      then have "reached_ids f \<subseteq> K" by (rule loaded_ids_reached)
      with a(8) show "clean_id ` set (accepted @ failing) \<inter> reached_ids f = {}" by blast
    qed
    show ?thesis
      using a(1,2,6,7,8,9) p f c d by blast
  qed
qed


theorem store_uniqueness_witness:
  "(\<exists>accepted failing p.
     subseq (accepted @ failing)
       [(''2101.00001'', [(''id'', JStr ''2101.00001'')]),
        (''2101.00002'', [(''id'', JStr ''2101.00002v1'')]),
        (''other'', [(''id'', JStr ''http://arxiv.org/abs/2101.00002v3'')])] \<and>
     length failing \<le> 1 \<and>
     (\<forall>x \<in> set (accepted @ failing). canonical_id x = Inr (clean_id x)) \<and>
     distinct (map clean_id (accepted @ failing)) \<and>
     clean_id ` set (accepted @ failing) \<inter> {''2101.00001''} = {} \<and>
     {''2101.00001'', ''2101.00002''} = {''2101.00001''} \<union> clean_id ` set accepted \<and>
     prefix p (concat (map (line_of id_line) (accepted @ failing))) \<and>
     (file_bytes \<lparr>server = [], sleeps = [],
          arxiv_file = Some (''abc'' @ [newline] @ ''2101.00002v1'' @ [newline]),
          write_faults = []\<rparr> =
        file_bytes \<lparr>server = [], sleeps = [], arxiv_file = Some ''abc'',
          write_faults = [Succeeds, Buffers, Succeeds, Buffers]\<rparr> @ p \<or>
      unterminated \<lparr>server = [], sleeps = [], arxiv_file = Some ''abc'',
          write_faults = [Succeeds, Buffers, Succeeds, Buffers]\<rparr> \<and>
      file_bytes \<lparr>server = [], sleeps = [],
          arxiv_file = Some (''abc'' @ [newline] @ ''2101.00002v1'' @ [newline]),
          write_faults = []\<rparr> =
        file_bytes \<lparr>server = [], sleeps = [], arxiv_file = Some ''abc'',
          write_faults = [Succeeds, Buffers, Succeeds, Buffers]\<rparr> @ [newline] @ p) \<and>
     (\<forall>n t. (Inr (1, 2) :: py_error + nat \<times> nat) = Inr (n, t) \<longrightarrow>
        failing = [] \<and> p = concat (map (line_of id_line) accepted) \<and>
        n = length accepted \<and> t = card {''2101.00001'', ''2101.00002''}) \<and>
     (\<forall>skip cur listing.
        {''2101.00001''} = load_existing_metadata_files skip cur (Some listing) \<longrightarrow>
        (\<forall>(name, f) \<in> set listing. eligible skip cur name \<longrightarrow>
           clean_id ` set (accepted @ failing) \<inter> reached_ids f = {}))) \<and>
   {''2101.00001''} =
     load_existing_metadata_files False ''202611''
       (Some [(map Ascii ''arxiv-metadata-oai-snapshot-202610.json'',
               Lines [Parsed (JObj [(''id'', JStr ''2101.00001'')])])])"
proof (rule conjI)
  let ?B = "[(''2101.00001'', [(''id'', JStr ''2101.00001'')]),
             (''2101.00002'', [(''id'', JStr ''2101.00002v1'')]),
             (''other'', [(''id'', JStr ''http://arxiv.org/abs/2101.00002v3'')])]"
  let ?w = "\<lparr>server = [], sleeps = [], arxiv_file = Some ''abc'',
             write_faults = [Succeeds, Buffers, Succeeds, Buffers]\<rparr>"
  let ?w' = "\<lparr>server = [], sleeps = [],
              arxiv_file = Some (''abc'' @ [newline] @ ''2101.00002v1'' @ [newline]),
              write_faults = []\<rparr>"
  have n1: "normalize_arxiv_id ''2101.00001'' = ''2101.00001''" by code_simp
  have n2: "normalize_arxiv_id ''2101.00002v1'' = ''2101.00002''" by code_simp
  have n3: "normalize_arxiv_id ''http://arxiv.org/abs/2101.00002v3'' = ''2101.00002''" by code_simp
  have run: "save_metadata_files id_line ?B {''2101.00001''} ?w =
      (Inr (1, 2), {''2101.00001'', ''2101.00002''}, ?w')"
    by (simp add: dict_get_def n1 n2 n3 save_metadata_files_def append_records_def make_dir_def
        ensure_newline_def newline_def file_write_def file_close_def file_bytes_def
        open_append_def next_outcome_def to_disk_def id_line_def insert_commute)
  show "\<exists>accepted failing p.
     subseq (accepted @ failing) ?B \<and> length failing \<le> 1 \<and>
     (\<forall>x \<in> set (accepted @ failing). canonical_id x = Inr (clean_id x)) \<and>
     distinct (map clean_id (accepted @ failing)) \<and>
     clean_id ` set (accepted @ failing) \<inter> {''2101.00001''} = {} \<and>
     {''2101.00001'', ''2101.00002''} = {''2101.00001''} \<union> clean_id ` set accepted \<and>
     prefix p (concat (map (line_of id_line) (accepted @ failing))) \<and>
     (file_bytes ?w' = file_bytes ?w @ p \<or>
      unterminated ?w \<and> file_bytes ?w' = file_bytes ?w @ [newline] @ p) \<and>
     (\<forall>n t. (Inr (1, 2) :: py_error + nat \<times> nat) = Inr (n, t) \<longrightarrow>
        failing = [] \<and> p = concat (map (line_of id_line) accepted) \<and>
        n = length accepted \<and> t = card {''2101.00001'', ''2101.00002''}) \<and>
     (\<forall>skip cur listing.
        {''2101.00001''} = load_existing_metadata_files skip cur (Some listing) \<longrightarrow>
        (\<forall>(name, f) \<in> set listing. eligible skip cur name \<longrightarrow>
           clean_id ` set (accepted @ failing) \<inter> reached_ids f = {}))"
    by (rule store_uniqueness [OF run])
next
  have m: "match_snapshot (map Ascii ''arxiv-metadata-oai-snapshot-202610.json'') =
      Some (Some (map Ascii ''202610''))" by code_simp
  have l: "period_le (map Ascii ''202610'') ''202611''" by code_simp
  have n1: "normalize_arxiv_id ''2101.00001'' = ''2101.00001''" by code_simp
  show "{''2101.00001''} =
     load_existing_metadata_files False ''202611''
       (Some [(map Ascii ''arxiv-metadata-oai-snapshot-202610.json'',
               Lines [Parsed (JObj [(''id'', JStr ''2101.00001'')])])])"
    by (simp add: load_existing_metadata_files_def m l n1 del: map_map list.map)
qed

text \<open>
  The claim as it is written does not hold where it concludes that \<^verbatim>\<open>id\<close> is unique in
  the union of all store files. In the run below the directory holds a store file
  without a period suffix with a record of the ID \<^verbatim>\<open>2101.00001\<close>. \<open>main\<close> is run with
  the flag that skips such files, so the loader returns the empty Known-ID Set, and the
  writer appends a record with the same ID to the store file of the current period.
\<close>

theorem duplicate_id_appended:
  "record_id (Parsed (JObj [(''id'', JStr ''2101.00001'')])) = Some ''2101.00001'' \<and>
   load_existing_metadata_files True ''202611''
       (Some [(map Ascii ''arxiv-metadata-oai-snapshot.json'',
               Lines [Parsed (JObj [(''id'', JStr ''2101.00001'')])])]) = {} \<and>
   save_all id_line True ''202611''
       (Some [(map Ascii ''arxiv-metadata-oai-snapshot.json'',
               Lines [Parsed (JObj [(''id'', JStr ''2101.00001'')])])])
       [(''2101.00001'', [(''id'', JStr ''2101.00001'')])] (fresh_world [] []) =
     (Inr (1, 1), {''2101.00001''},
      \<lparr>server = [], sleeps = [], arxiv_file = Some (''2101.00001'' @ [newline]),
         write_faults = []\<rparr>)"
proof -
  have m: "match_snapshot (map Ascii ''arxiv-metadata-oai-snapshot.json'') = Some None"
    by code_simp
  have n1: "normalize_arxiv_id ''2101.00001'' = ''2101.00001''" by code_simp
  have ld: "load_existing_metadata_files True ''202611''
       (Some [(map Ascii ''arxiv-metadata-oai-snapshot.json'',
               Lines [Parsed (JObj [(''id'', JStr ''2101.00001'')])])]) = {}"
    by (simp add: load_existing_metadata_files_def m del: map_map list.map)
  show ?thesis
    unfolding save_all_def ld
    by (simp add: n1 dict_get_def save_metadata_files_def append_records_def make_dir_def
        ensure_newline_def newline_def file_write_def file_close_def file_bytes_def
        open_append_def next_outcome_def to_disk_def id_line_def fresh_world_def
        load_existing_metadata_files_def m del: map_map list.map)
qed

lemma write_records_known:
  "all_known new_dict K \<Longrightarrow> write_records dumps new_dict n K b w = (None, n, K, b, w)"
proof (induction new_dict)
  case Nil
  then show ?case by simp
next
  case (Cons item rest)
  obtain paper_id paper_data where item: "item = (paper_id, paper_data)" by (cases item)
  from Cons.prems show ?case using Cons.IH
    by (auto simp: all_known_def item canonical_id_def split: sum.splits)
qed

text \<open>When none of the coming operations fails, every step of the writer succeeds.\<close>

lemma make_dir_quiet: "no_failure w \<Longrightarrow> \<exists>w'. make_dir w = (True, w') \<and> no_failure w'"
proof -
  assume "no_failure w"
  from next_outcome_quiet [OF this] obtain out w' where
    n: "next_outcome w = (out, w')" "\<forall>n. out \<noteq> Fails n" "no_failure w'" by blast
  then show ?thesis by (cases out) (simp_all add: make_dir_def)
qed

lemma no_failure_to_disk [simp]: "no_failure (to_disk data w) = no_failure w"
  by (simp add: no_failure_def)

lemma ensure_newline_quiet:
  "no_failure w \<Longrightarrow> \<exists>w'. ensure_newline w = (True, w') \<and> no_failure w'"
proof -
  assume q: "no_failure w"
  from next_outcome_quiet [OF q] obtain o1 w1 where
    n1: "next_outcome w = (o1, w1)" "\<forall>n. o1 \<noteq> Fails n" "no_failure w1" by blast
  from next_outcome_quiet [OF n1(3)] obtain o2 w2 where
    n2: "next_outcome w1 = (o2, w2)" "\<forall>n. o2 \<noteq> Fails n" "no_failure w2" by blast
  show ?thesis
    using q n1 n2
    by (cases o1; cases o2) (auto simp: ensure_newline_def split: option.splits)
qed

lemma open_append_quiet:
  "no_failure w \<Longrightarrow> \<exists>w'. open_append w = (True, w') \<and> no_failure w'"
proof -
  assume "no_failure w"
  from next_outcome_quiet [OF this] obtain out w' where
    n: "next_outcome w = (out, w')" "\<forall>n. out \<noteq> Fails n" "no_failure w'" by blast
  then show ?thesis
    by (cases out) (auto simp: open_append_def no_failure_def split: option.splits)
qed

lemma file_close_quiet: "no_failure w \<Longrightarrow> \<exists>w'. file_close b w = (True, w')"
proof -
  assume "no_failure w"
  from next_outcome_quiet [OF this] obtain out w' where
    n: "next_outcome w = (out, w')" "\<forall>n. out \<noteq> Fails n" "no_failure w'" by blast
  then show ?thesis by (cases out) (simp_all add: file_close_def)
qed

text \<open>
  Claim C2, amended. For a batch in which every record's canonical ID is already in the
  Known-ID Set, \<open>save_metadata_files\<close> appends no record and leaves the Known-ID Set as
  it is. The call returns the count 0 or raises \<^verbatim>\<open>OSError\<close>, and it raises only when
  an operation of the file system fails (creating the directory, opening the file,
  writing the newline, closing the file): when none fails, the call returns the count
  0. The store file keeps its bytes, except that a file that is not empty and
  does not end with a newline can get one newline appended. When the call returns, the
  file exists, it has that newline if it was unterminated and its bytes are unchanged
  otherwise (a missing file is created empty).
\<close>

theorem known_batch_frame:
  assumes "all_known new_dict K" "save_metadata_files dumps new_dict K w = (r, K', w')"
  shows "K' = K \<and> (r = Inl OSError \<or> r = Inr (0, card K)) \<and>
    (file_bytes w' = file_bytes w \<or>
     unterminated w \<and> file_bytes w' = file_bytes w @ [newline]) \<and>
    (r = Inr (0, card K) \<longrightarrow>
       file_bytes w' = (if unterminated w then file_bytes w @ [newline] else file_bytes w) \<and>
       arxiv_file w' = Some (file_bytes w')) \<and>
    (no_failure w \<longrightarrow> r = Inr (0, card K))"
proof -
  have quiet: "r = Inr (0, card K)" if q: "no_failure w"
  proof -
    from make_dir_quiet [OF q] obtain w0 where
      md: "make_dir w = (True, w0)" "no_failure w0" by blast
    from ensure_newline_quiet [OF md(2)] obtain w1 where
      en: "ensure_newline w0 = (True, w1)" "no_failure w1" by blast
    from open_append_quiet [OF en(2)] obtain w2 where
      oa: "open_append w1 = (True, w2)" "no_failure w2" by blast
    have wr: "write_records dumps new_dict 0 K [] w2 = (None, 0, K, [], w2)"
      using assms(1) by (rule write_records_known)
    from file_close_quiet [OF oa(2)] obtain w3 where fc: "file_close [] w2 = (True, w3)"
      by blast
    have "save_metadata_files dumps new_dict K w = (Inr (0, card K), K, w3)"
      by (simp add: save_metadata_files_def append_records_def md(1) en(1) oa(1) wr fc)
    with assms(2) have "(r, K', w') = (Inr (0, card K), K, w3)" by (rule trans [OF sym])
    then show ?thesis by (simp only: prod.inject)
  qed
  from assms(2) have main: "K' = K \<and> (r = Inl OSError \<or> r = Inr (0, card K)) \<and>
    (file_bytes w' = file_bytes w \<or>
     unterminated w \<and> file_bytes w' = file_bytes w @ [newline]) \<and>
    (r = Inr (0, card K) \<longrightarrow>
       file_bytes w' = (if unterminated w then file_bytes w @ [newline] else file_bytes w) \<and>
       arxiv_file w' = Some (file_bytes w'))"
  proof (cases rule: save_metadata_files_cases)
    case dir_failed
    then show ?thesis using make_dir_bytes [OF dir_failed(1)] by simp
  next
    case (newline_failed w0)
    then show ?thesis
      using make_dir_bytes [OF newline_failed(1)] ensure_newline_bytes [OF newline_failed(2)]
      by (auto simp: unterminated_def)
  next
    case (open_failed w0 w1)
    then show ?thesis
      using make_dir_bytes [OF open_failed(1)] ensure_newline_bytes [OF open_failed(2)]
        open_append_bytes [OF open_failed(3)]
      by (auto simp: unterminated_def)
  next
    case (written w0 w1 w2 e n b w3 ok)
    have wr: "write_records dumps new_dict 0 K [] w2 = (None, 0, K, [], w2)"
      using assms(1) by (rule write_records_known)
    with written(4) have eq: "e = None" "n = 0" "K' = K" "b = []" "w3 = w2" by simp_all
    from file_close_bytes [OF written(5)] eq have c: "file_bytes w' = file_bytes w2" by auto
    have u: "unterminated w0 = unterminated w" "file_bytes w0 = file_bytes w"
      using make_dir_bytes [OF written(1)] by (simp_all add: unterminated_def)
    have b2: "file_bytes w2 = (if unterminated w then file_bytes w @ [newline] else file_bytes w)"
      using ensure_newline_bytes [OF written(2)] open_append_bytes [OF written(3)] u by simp
    have ex: "arxiv_file w' = Some (file_bytes w')" using written(5) by (rule file_close_exists)
    have r: "r = Inl OSError \<or> r = Inr (0, card K)" using written(6) eq by (cases ok) simp_all
    show ?thesis using eq(3) r c b2 ex by simp
  qed
  with quiet show ?thesis by blast
qed

theorem known_batch_frame_witness:
  "all_known [(''2101.00001'', [(''id'', JStr ''2101.00001'')])] {''2101.00001''} \<and>
   {''2101.00001''} = {''2101.00001''} \<and>
   (Inr (0, 1) :: py_error + nat \<times> nat) = Inr (0, card {''2101.00001''}) \<and>
   unterminated \<lparr>server = [], sleeps = [], arxiv_file = Some ''abc'', write_faults = []\<rparr> \<and>
   file_bytes \<lparr>server = [], sleeps = [], arxiv_file = Some (''abc'' @ [newline]),
       write_faults = []\<rparr> =
     file_bytes \<lparr>server = [], sleeps = [], arxiv_file = Some ''abc'', write_faults = []\<rparr> @
     [newline] \<and>
   arxiv_file \<lparr>server = [], sleeps = [], arxiv_file = Some (''abc'' @ [newline]),
       write_faults = []\<rparr> = Some (''abc'' @ [newline])"
proof -
  let ?B = "[(''2101.00001'', [(''id'', JStr ''2101.00001'')])]"
  let ?w = "\<lparr>server = [], sleeps = [], arxiv_file = Some ''abc'', write_faults = []\<rparr>"
  let ?w' = "\<lparr>server = [], sleeps = [], arxiv_file = Some (''abc'' @ [newline]), write_faults = []\<rparr>"
  have n: "normalize_arxiv_id ''2101.00001'' = ''2101.00001''" by code_simp
  have k: "all_known ?B {''2101.00001''}"
    by (simp add: all_known_def canonical_id_def dict_get_def n)
  have run: "save_metadata_files (\<lambda>d. ''{}'') ?B {''2101.00001''} ?w = (Inr (0, 1), {''2101.00001''}, ?w')"
    by (simp add: dict_get_def n save_metadata_files_def append_records_def make_dir_def
        ensure_newline_def newline_def file_write_def file_close_def file_bytes_def
        open_append_def next_outcome_def to_disk_def)
  have u: "unterminated ?w" by (simp add: unterminated_def file_bytes_def newline_def)
  have q: "no_failure ?w" by (simp add: no_failure_def)
  note a = known_batch_frame [OF k run, THEN conjunct1]
  note b = known_batch_frame [OF k run, THEN conjunct2, THEN conjunct2, THEN conjunct2,
      THEN conjunct2, rule_format, OF q]
  note c = known_batch_frame [OF k run, THEN conjunct2, THEN conjunct2, THEN conjunct2,
      THEN conjunct1, rule_format, OF b]
  show ?thesis using k a b c u by (simp add: file_bytes_def)
qed

text \<open>
  Claim C2 as stated fails: the batch below has its only ID in the Known-ID Set and the
  store file holds \<^verbatim>\<open>abc\<close> without a final newline. The call returns the count 0, and
  the file has a newline more than before.
\<close>

theorem known_batch_changes_file:
  "all_known [(''2101.00001'', [(''id'', JStr ''2101.00001'')])] {''2101.00001''} \<and>
   save_metadata_files (\<lambda>paper_data. ''{}'') [(''2101.00001'', [(''id'', JStr ''2101.00001'')])]
       {''2101.00001''}
       \<lparr>server = [], sleeps = [], arxiv_file = Some ''abc'', write_faults = []\<rparr>
     = (Inr (0, 1), {''2101.00001''},
        \<lparr>server = [], sleeps = [], arxiv_file = Some (''abc'' @ [newline]), write_faults = []\<rparr>) \<and>
   Some (''abc'' @ [newline]) \<noteq> Some ''abc''"
proof -
  have n: "normalize_arxiv_id ''2101.00001'' = ''2101.00001''" by code_simp
  show ?thesis
    by (simp add: all_known_def canonical_id_def dict_get_def n save_metadata_files_def
        append_records_def make_dir_def ensure_newline_def newline_def file_write_def
        file_close_def file_bytes_def open_append_def next_outcome_def to_disk_def)
qed

section \<open>Properties of the fetcher\<close>

lemma dict_set_new: "k \<notin> fst ` set d \<Longrightarrow> dict_set d k v = d @ [(k, v)]"
  by (induction d) auto

lemma process_entry_add:
  "\<exists>n'. process_entry e (n, fc) = (n', add_entry e fc)"
  by (auto simp: process_entry_def add_entry_def entry_record_def Let_def dict_set_new
      split: elem.splits option.splits sum.splits)

lemma fold_process_entry:
  "snd (fold process_entry es (n, fc)) = fold add_entry es fc"
proof (induction es arbitrary: n fc)
  case Nil
  then show ?case by simp
next
  case (Cons e es)
  obtain n' where "process_entry e (n, fc) = (n', add_entry e fc)"
    using process_entry_add by blast
  then show ?case using Cons [of n' "add_entry e fc"] by simp
qed

lemma filter_add_entry:
  "filter (\<lambda>r. fst r = k) (add_entry e fc) =
     (if k \<in> fst ` set fc then filter (\<lambda>r. fst r = k) fc
      else (case entry_record e of
              None \<Rightarrow> []
            | Some (k', p) \<Rightarrow> if k' = k then [(k, p)] else []))"
proof -
  have none: "filter (\<lambda>r. fst r = k) fc = []" if "k \<notin> fst ` set fc"
    using that by (induction fc) auto
  show ?thesis
    by (auto simp: add_entry_def none split: option.splits)
qed

lemma add_entry_keys:
  "k \<in> fst ` set (add_entry e fc) \<longleftrightarrow>
     k \<in> fst ` set fc \<or> (\<exists>p. entry_record e = Some (k, p))"
  by (force simp: add_entry_def split: option.splits if_splits)

lemma filter_fold_add_entry:
  "filter (\<lambda>r. fst r = k) (fold add_entry es fc) =
     (if k \<in> fst ` set fc then filter (\<lambda>r. fst r = k) fc
      else (case first_record k es of None \<Rightarrow> [] | Some p \<Rightarrow> [(k, p)]))"
proof (induction es arbitrary: fc)
  case Nil
  have "filter (\<lambda>r. fst r = k) fc = []" if "k \<notin> fst ` set fc"
    using that by (induction fc) auto
  then show ?case by simp
next
  case (Cons e es)
  show ?case
  proof (cases "k \<in> fst ` set fc")
    case True
    then have "k \<in> fst ` set (add_entry e fc)" by (simp add: add_entry_keys)
    then show ?thesis using Cons [of "add_entry e fc"] True by (simp add: filter_add_entry)
  next
    case False
    show ?thesis
    proof (cases "\<exists>p. entry_record e = Some (k, p)")
      case True
      then obtain p where p: "entry_record e = Some (k, p)" by blast
      then have "k \<in> fst ` set (add_entry e fc)" by (simp add: add_entry_keys)
      then show ?thesis using Cons [of "add_entry e fc"] False p by (simp add: filter_add_entry)
    next
      case no: False
      then have "k \<notin> fst ` set (add_entry e fc)" using False by (simp add: add_entry_keys)
      moreover have "first_record k (e # es) = first_record k es"
        using no by (auto split: option.splits)
      ultimately show ?thesis using Cons [of "add_entry e fc"] False by simp
    qed
  qed
qed

lemma distinct_keys:
  assumes "\<And>k. length (filter (\<lambda>r. fst r = k) xs) \<le> 1"
  shows "distinct (map fst xs)"
  using assms
proof (induction xs)
  case Nil
  then show ?case by simp
next
  case (Cons x xs)
  have le: "length (filter (\<lambda>r. fst r = k) xs) \<le> 1" for k
    using Cons.prems [of k] by (auto split: if_splits)
  have "fst x \<notin> fst ` set xs"
  proof
    assume "fst x \<in> fst ` set xs"
    then have "filter (\<lambda>r. fst r = fst x) xs \<noteq> []" by (force simp: filter_empty_conv)
    then have "0 < length (filter (\<lambda>r. fst r = fst x) xs)" by simp
    with Cons.prems [of "fst x"] show False by simp
  qed
  with Cons.IH [OF le] show ?case by simp
qed

lemma map_of_filter:
  "map_of xs k = (case filter (\<lambda>r. fst r = k) xs of [] \<Rightarrow> None | r # rs \<Rightarrow> Some (snd r))"
  by (induction xs) auto

lemma fold_add_entry_first:
  "distinct (map fst (fold add_entry es [])) \<and>
   map_of (fold add_entry es []) k = first_record k es \<and>
   filter (\<lambda>r. fst r = k) (fold add_entry es []) =
     (case first_record k es of None \<Rightarrow> [] | Some p \<Rightarrow> [(k, p)])"
proof -
  have f: "filter (\<lambda>r. fst r = k) (fold add_entry es []) =
     (case first_record k es of None \<Rightarrow> [] | Some p \<Rightarrow> [(k, p)])" for k
    using filter_fold_add_entry [of k es "[]"] by simp
  have "length (filter (\<lambda>r. fst r = k) (fold add_entry es [])) \<le> 1" for k
    by (simp add: f split: option.splits)
  then have "distinct (map fst (fold add_entry es []))" by (rule distinct_keys)
  moreover have "map_of (fold add_entry es []) k = first_record k es"
    by (simp add: map_of_filter f split: option.splits)
  ultimately show ?thesis using f by simp
qed

lemma feed_entries_append: "feed_entries (a @ b) = feed_entries a @ feed_entries b"
  by (induction a rule: feed_entries.induct) auto

lemma retry_loop_consumes:
  "retry_loop n srv slept = Some (outcome, rest, slept') \<Longrightarrow>
   \<exists>c. srv = c @ rest \<and>
       feed_entries c = (case outcome of Got (Feed entries) \<Rightarrow> entries | _ \<Rightarrow> [])"
proof (induction srv arbitrary: n slept)
  case Nil
  then show ?case by simp
next
  case (Cons r srv)
  show ?case
  proof (cases r)
    case (Content c)
    with Cons.prems have "outcome = Got c" "rest = srv" by simp_all
    then have "r # srv = [r] @ rest \<and>
        feed_entries [r] = (case outcome of Got (Feed entries) \<Rightarrow> entries | _ \<Rightarrow> [])"
      using Content by (cases c) simp_all
    then show ?thesis by blast
  next
    case (HTTPError code)
    show ?thesis
    proof (cases "code = 503 \<and> n + 1 < max_retries")
      case True
      with Cons.prems HTTPError
      have "retry_loop (n + 1) srv (slept @ [10 * (n + 1)]) = Some (outcome, rest, slept')"
        by (simp add: Let_def)
      from Cons.IH [OF this] obtain c where "srv = c @ rest"
        "feed_entries c = (case outcome of Got (Feed entries) \<Rightarrow> entries | _ \<Rightarrow> [])" by blast
      then have "r # srv = (r # c) @ rest \<and>
          feed_entries (r # c) = (case outcome of Got (Feed entries) \<Rightarrow> entries | _ \<Rightarrow> [])"
        using HTTPError by simp
      then show ?thesis by blast
    next
      case False
      with Cons.prems HTTPError have "outcome = RaisedHTTP code" "rest = srv"
        by (auto simp: Let_def split: if_splits)
      then have "r # srv = [r] @ rest \<and>
          feed_entries [r] = (case outcome of Got (Feed entries) \<Rightarrow> entries | _ \<Rightarrow> [])"
        using HTTPError by simp
      then show ?thesis by blast
    qed
  next
    case OtherError
    show ?thesis
    proof (cases "n + 1 < max_retries")
      case True
      with Cons.prems OtherError
      have "retry_loop (n + 1) srv (slept @ [5 * (n + 1)]) = Some (outcome, rest, slept')"
        by (simp add: Let_def)
      from Cons.IH [OF this] obtain c where "srv = c @ rest"
        "feed_entries c = (case outcome of Got (Feed entries) \<Rightarrow> entries | _ \<Rightarrow> [])" by blast
      then have "r # srv = (r # c) @ rest \<and>
          feed_entries (r # c) = (case outcome of Got (Feed entries) \<Rightarrow> entries | _ \<Rightarrow> [])"
        using OtherError by simp
      then show ?thesis by blast
    next
      case False
      with Cons.prems OtherError have "outcome = RaisedOther" "rest = srv"
        by (auto simp: Let_def split: if_splits)
      then have "r # srv = [r] @ rest \<and>
          feed_entries [r] = (case outcome of Got (Feed entries) \<Rightarrow> entries | _ \<Rightarrow> [])"
        using OtherError by simp
      then show ?thesis by blast
    qed
  qed
qed

lemma save_metadata_files_frame:
  assumes "save_metadata_files dumps new_dict K w = (r, K', w')"
  shows "server w' = server w \<and> sleeps w' = sleeps w"
  using assms
proof (cases rule: save_metadata_files_cases)
  case dir_failed
  then show ?thesis using make_dir_frame by blast
next
  case (newline_failed w0)
  then show ?thesis
    using make_dir_frame [OF newline_failed(1)] ensure_newline_frame [OF newline_failed(2)] by simp
next
  case (open_failed w0 w1)
  then show ?thesis
    using make_dir_frame [OF open_failed(1)] ensure_newline_frame [OF open_failed(2)]
      open_append_frame [OF open_failed(3)] by simp
next
  case (written w0 w1 w2 e n b w3 ok)
  then show ?thesis
    using make_dir_frame [OF written(1)] ensure_newline_frame [OF written(2)]
      open_append_frame [OF written(3)] write_records_frame [OF written(4)]
      file_close_frame [OF written(5)] by simp
qed

lemma save_batch_server: "save_batch dumps entry_count s w = (s', w') \<Longrightarrow> server w' = server w"
  by (auto simp: save_batch_def Let_def split: sum.splits prod.splits if_splits
      dest: save_metadata_files_frame)

lemma save_batch_frame:
  "save_batch dumps entry_count s w = (s', w') \<Longrightarrow>
   start s' = start s \<and> empty_page_count s' = empty_page_count s \<and>
   full_content s' = full_content s"
  by (auto simp: save_batch_def Let_def split: sum.splits prod.splits if_splits)

lemma loop_body_page:
  assumes "retry_loop 0 (server w) (sleeps w @ [5]) = Some (Got (Feed entries), rest, slept)"
  shows "\<exists>r w'. loop_body dumps s w = Some (r, w') \<and> server w' = rest \<and>
     full_content (flow_state r) = fold add_entry entries (full_content s) \<and>
     (if count_entries entries (full_content s) = 0
      then empty_page_count (flow_state r) = empty_page_count s + 1 \<and>
           (if max_empty_pages \<le> empty_page_count s + 1
            then r = Break (flow_state r) \<and> start (flow_state r) = start s
            else r = Next (flow_state r) \<and> start (flow_state r) = start s + batch_size)
      else r = Next (flow_state r) \<and> empty_page_count (flow_state r) = 0 \<and>
           start (flow_state r) = start s + batch_size)"
proof -
  obtain entry_count contents where f: "fold process_entry entries (0, full_content s) = (entry_count, contents)"
    by (cases "fold process_entry entries (0, full_content s)")
  have c: "contents = fold add_entry entries (full_content s)"
    using fold_process_entry [of entries 0 "full_content s"] f by simp
  have n: "count_entries entries (full_content s) = entry_count"
    using f by (simp add: count_entries_def)
  let ?w1 = "w\<lparr>server := rest, sleeps := slept\<rparr>"
  show ?thesis
  proof (cases "entry_count = 0")
    case True
    then show ?thesis using assms f c n
      by (auto simp: loop_body_def Let_def)
  next
    case False
    let ?s2 = "s\<lparr>full_content := contents, empty_page_count := 0, start := start s + batch_size\<rparr>"
    obtain s3 w2 where sb: "save_batch dumps entry_count ?s2 ?w1 = (s3, w2)"
      by (cases "save_batch dumps entry_count ?s2 ?w1")
    have "loop_body dumps s w = Some (Next s3, w2)"
      using assms f False sb by (simp add: loop_body_def Let_def)
    moreover have "server w2 = rest" using save_batch_server [OF sb] by simp
    moreover have "start s3 = start s + batch_size" "empty_page_count s3 = 0" "full_content s3 = contents"
      using save_batch_frame [OF sb] by simp_all
    ultimately show ?thesis using False c n by simp
  qed
qed

lemma loop_body_contents:
  assumes "loop_body dumps s w = Some (r, w')"
  shows "\<exists>c. server w = c @ server w' \<and>
     full_content (flow_state r) = fold add_entry (feed_entries c) (full_content s)"
proof -
  from assms obtain outcome rest slept where
    rl: "retry_loop 0 (server w) (sleeps w @ [5]) = Some (outcome, rest, slept)"
    by (auto simp: loop_body_def split: option.splits)
  from retry_loop_consumes [OF rl] obtain c where c: "server w = c @ rest"
    "feed_entries c = (case outcome of Got (Feed entries) \<Rightarrow> entries | _ \<Rightarrow> [])" by blast
  show ?thesis
  proof (cases "\<exists>entries. outcome = Got (Feed entries)")
    case True
    then obtain entries where o: "outcome = Got (Feed entries)" by blast
    from loop_body_page [OF rl [unfolded o], of dumps s] assms
    have "server w' = rest" "full_content (flow_state r) = fold add_entry entries (full_content s)"
      by auto
    with c o show ?thesis by auto
  next
    case False
    then have fe: "feed_entries c = []" using c(2)
      by (cases outcome) (auto split: feed.splits)
    have "server w' = rest \<and> flow_state r = s"
      using assms rl False
      by (cases outcome) (auto simp: loop_body_def Let_def split: feed.splits if_splits)
    with c(1) fe show ?thesis by auto
  qed
qed

lemma fetch_loop_contents:
  "fetch_loop dumps target s w = Some (s', w') \<Longrightarrow>
   \<exists>c. server w = c @ server w' \<and>
       full_content s' = fold add_entry (feed_entries c) (full_content s)"
proof (induction dumps target s w rule: fetch_loop.induct)
  case (1 dumps target s w)
  show ?case
  proof (cases "(case target of None \<Rightarrow> True | Some t \<Rightarrow> start s < t) \<and>
         empty_page_count s < max_empty_pages")
    case False
    with "1.prems" have "s' = s" "w' = w" by (auto simp: fetch_loop.simps [of dumps target s w])
    then have "server w = [] @ server w' \<and>
       full_content s' = fold add_entry (feed_entries []) (full_content s)" by simp
    then show ?thesis by blast
  next
    case True
    with "1.prems" obtain r w1 where lb: "loop_body dumps s w = Some (r, w1)"
      by (auto simp: fetch_loop.simps [of dumps target s w] split: option.splits)
    from loop_body_contents [OF lb] obtain c1 where c1: "server w = c1 @ server w1"
      "full_content (flow_state r) = fold add_entry (feed_entries c1) (full_content s)" by blast
    show ?thesis
    proof (cases r)
      case (Break s1)
      with "1.prems" True lb have "s' = s1" "w' = w1"
        by (auto simp: fetch_loop.simps [of dumps target s w])
      with c1 Break show ?thesis by auto
    next
      case (Next s1)
      with "1.prems" True lb have fl: "fetch_loop dumps target s1 w1 = Some (s', w')"
        by (auto simp: fetch_loop.simps [of dumps target s w])
      from "1.IH" [OF True lb refl Next fl]
      obtain c2 where c2: "server w1 = c2 @ server w'"
        "full_content s' = fold add_entry (feed_entries c2) (full_content s1)" by force
      have "server w = (c1 @ c2) @ server w'" using c1(1) c2(1) by simp
      moreover have "full_content s' = fold add_entry (feed_entries (c1 @ c2)) (full_content s)"
        using c1(2) c2(2) Next by (simp add: feed_entries_append)
      ultimately show ?thesis by blast
    qed
  qed
qed


lemma extract_paper_id_normalize:
  "contains ''/abs/'' s \<or> \<not> contains ''arxiv.org'' s \<Longrightarrow> extract_paper_id s = normalize_arxiv_id s"
  by (cases "s = []")
    (auto simp: extract_paper_id_def normalize_arxiv_id_def strip_url_def strip_version_def Let_def)


lemma authors_concat_names:
  "None \<notin> set names \<Longrightarrow> \<exists>authors_str. authors_concat names acc = Inr authors_str"
proof (induction names arbitrary: acc)
  case Nil
  then show ?case by simp
next
  case (Cons a names)
  then show ?case by (cases a) auto
qed

lemma author_names_text: "Elem None \<notin> set authors \<Longrightarrow> None \<notin> set (author_names authors)"
  by (induction authors rule: author_names.induct) auto

lemma get_authors_complete:
  "Elem None \<notin> set authors \<Longrightarrow> \<exists>s. get_authors (author_names authors) = Inr s"
proof -
  assume "Elem None \<notin> set authors"
  then have "None \<notin> set (author_names authors)" by (rule author_names_text)
  from authors_concat_names [OF this, of "[]"] show ?thesis
    by (auto simp: get_authors_def)
qed

lemma abstract_of_complete: "e \<noteq> Elem None \<Longrightarrow> \<exists>s. abstract_of e = Inr s"
  by (cases e rule: abstract_of.cases) auto

lemma date_of_complete: "e \<noteq> Elem None \<Longrightarrow> \<exists>s. date_of e = Inr s"
  by (cases e rule: date_of.cases) auto

lemma entry_record_complete:
  assumes "complete_entry e" "raw_id e = Some raw"
  shows "\<exists>p. entry_record e = Some (extract_paper_id raw, p) \<and>
     map_of p ''id'' = Some (JStr (extract_paper_id raw)) \<and>
     map_of p ''entry_id'' = Some (JStr raw) \<and>
     map_of p ''title'' = Some (opt_str (title_text e))"
proof -
  from assms(1) have c: "\<not> is_search_info e" "e_title e \<noteq> Missing"
    "Elem None \<notin> set (e_authors e)" "e_summary e \<noteq> Elem None"
    "e_published e \<noteq> Elem None" "e_updated e \<noteq> Elem None"
    by (simp_all add: complete_entry_def)
  from assms(2) have i: "e_id e = Elem (Some raw)"
    by (cases "e_id e") (simp_all add: raw_id_def)
  from c(2) obtain title where t: "e_title e = Elem title" by (cases "e_title e") simp_all
  from get_authors_complete [OF c(3)] obtain a where a: "get_authors (author_names (e_authors e)) = Inr a"
    by blast
  from abstract_of_complete [OF c(4)] obtain b where b: "abstract_of (e_summary e) = Inr b" by blast
  from date_of_complete [OF c(5)] obtain d1 where d1: "date_of (e_published e) = Inr d1" by blast
  from date_of_complete [OF c(6)] obtain d2 where d2: "date_of (e_updated e) = Inr d2" by blast
  show ?thesis
    by (simp add: entry_record_def c(1) i t build_paper_def Let_def a b d1 d2 title_text_def)
qed

lemma authors_concat_none: "None \<in> set names \<Longrightarrow> authors_concat names acc = Inl TypeError"
proof (induction names arbitrary: acc)
  case Nil
  then show ?case by simp
next
  case (Cons a names)
  then show ?case by (cases a) auto
qed

lemma author_names_none: "Elem None \<in> set authors \<Longrightarrow> None \<in> set (author_names authors)"
  by (induction authors rule: author_names.induct) auto

lemma entry_record_incomplete: "\<not> complete_entry e \<Longrightarrow> entry_record e = None"
proof -
  assume n: "\<not> complete_entry e"
  have g: "get_authors (author_names (e_authors e)) = Inl TypeError"
    if "Elem None \<in> set (e_authors e)"
  proof -
    from that have m: "None \<in> set (author_names (e_authors e))" by (rule author_names_none)
    then have "author_names (e_authors e) \<noteq> []" by auto
    then show ?thesis using authors_concat_none [OF m, of "[]"] by (simp add: get_authors_def)
  qed
  show ?thesis
  proof (cases "is_search_info e \<or> raw_id e = None \<or> e_title e = Missing")
    case True
    then show ?thesis
      by (auto simp: entry_record_def raw_id_def split: elem.splits option.splits)
  next
    case False
    then obtain raw title where i: "e_id e = Elem (Some raw)" and t: "e_title e = Elem title"
      and s: "\<not> is_search_info e"
      by (cases "e_id e"; cases "e_title e") (auto simp: raw_id_def)
    from n False consider "Elem None \<in> set (e_authors e)" | "e_summary e = Elem None"
      | "e_published e = Elem None" | "e_updated e = Elem None"
      by (auto simp: complete_entry_def)
    then have "\<exists>err. build_paper e raw title (extract_paper_id raw) = Inl err"
    proof cases
      case 1
      then show ?thesis by (simp add: build_paper_def Let_def g)
    next
      case 2
      then show ?thesis by (simp add: build_paper_def Let_def split: sum.splits)
    next
      case 3
      then show ?thesis by (simp add: build_paper_def Let_def split: sum.splits)
    next
      case 4
      then show ?thesis by (simp add: build_paper_def Let_def split: sum.splits)
    qed
    then show ?thesis using i t s by (auto simp: entry_record_def)
  qed
qed

lemma entry_key_canonical:
  assumes "api_form e" "entry_record e = Some (k, p)"
  shows "entry_canonical_id e = Some k"
proof -
  from assms(2) have c: "complete_entry e" using entry_record_incomplete by (cases "complete_entry e") auto
  then obtain raw where r: "raw_id e = Some raw" by (auto simp: complete_entry_def)
  from entry_record_complete [OF c r] assms(2) have k: "k = extract_paper_id raw" by auto
  from assms(1) r have "contains ''/abs/'' raw \<or> \<not> contains ''arxiv.org'' raw"
    by (simp add: api_form_def)
  then have "extract_paper_id raw = normalize_arxiv_id raw" by (rule extract_paper_id_normalize)
  with k r show ?thesis by (simp add: entry_canonical_id_def)
qed

lemma first_record_none:
  "\<forall>x \<in> set es. \<forall>p. entry_record x \<noteq> Some (k, p) \<Longrightarrow> first_record k es = None"
  by (induction es) (auto split: option.splits)

lemma first_record_split:
  assumes "\<forall>x \<in> set xs. \<forall>q. entry_record x \<noteq> Some (k, q)" "entry_record e = Some (k, p)"
  shows "first_record k (xs @ e # ys) = Some p"
  using assms by (induction xs) (auto split: option.splits)


lemma fetch_loop_returns:
  "\<exists>pre k. server w = pre @ replicate k (Content (Feed [])) \<and>
      list_all (\<lambda>r. case r of Content c \<Rightarrow> True | _ \<Rightarrow> False) pre \<and>
      3 \<le> k + (if pre = [] then empty_page_count s else 0) \<Longrightarrow>
   fetch_loop dumps target s w \<noteq> None"
proof (induction dumps target s w rule: fetch_loop.induct)
  case (1 dumps target s w)
  from "1.prems" obtain pre k where sv: "server w = pre @ replicate k (Content (Feed []))"
    and ct: "list_all (\<lambda>r. case r of Content c \<Rightarrow> True | _ \<Rightarrow> False) pre"
    and k: "3 \<le> k + (if pre = [] then empty_page_count s else 0)" by blast
  show ?case
  proof (cases "(case target of None \<Rightarrow> True | Some t \<Rightarrow> start s < t) \<and>
         empty_page_count s < max_empty_pages")
    case False
    then show ?thesis by (auto simp: fetch_loop.simps [of dumps target s w])
  next
    case True
    then have epc: "empty_page_count s < 3" by (simp add: max_empty_pages_def)
    have step: ?thesis
      if rl: "retry_loop 0 (server w) (sleeps w @ [5]) = Some (Got (Feed entries), rest, slept)"
        and nx: "\<And>s1 :: fetch_state. empty_page_count s1 =
              (if count_entries entries (full_content s) = 0 then empty_page_count s + 1 else 0) \<Longrightarrow>
            \<exists>pre k. rest = pre @ replicate k (Content (Feed [])) \<and>
              list_all (\<lambda>r. case r of Content c \<Rightarrow> True | _ \<Rightarrow> False) pre \<and>
              3 \<le> k + (if pre = [] then empty_page_count s1 else 0)"
      for entries rest slept
    proof -
      from loop_body_page [OF rl, of dumps s] obtain r w1 where
        lb: "loop_body dumps s w = Some (r, w1)" and sw: "server w1 = rest" and
        e: "empty_page_count (flow_state r) =
              (if count_entries entries (full_content s) = 0 then empty_page_count s + 1 else 0)"
        by (auto split: if_splits)
      show ?thesis
      proof (cases r)
        case (Break s1)
        with True lb show ?thesis by (simp add: fetch_loop.simps [of dumps target s w])
      next
        case (Next s1)
        with e have "empty_page_count s1 =
              (if count_entries entries (full_content s) = 0 then empty_page_count s + 1 else 0)"
          by simp
        from nx [OF this] sw have "\<exists>pre k. server w1 = pre @ replicate k (Content (Feed [])) \<and>
              list_all (\<lambda>r. case r of Content c \<Rightarrow> True | _ \<Rightarrow> False) pre \<and>
              3 \<le> k + (if pre = [] then empty_page_count s1 else 0)" by simp
        from "1.IH" [OF True lb refl Next this]
        have "fetch_loop dumps target s1 w1 \<noteq> None" .
        with True lb Next show ?thesis by (simp add: fetch_loop.simps [of dumps target s w])
      qed
    qed
    show ?thesis
    proof (cases pre)
      case Nil
      with k epc obtain k' where k': "k = Suc k'" by (cases k) auto
      have rl: "retry_loop 0 (server w) (sleeps w @ [5]) =
          Some (Got (Feed []), replicate k' (Content (Feed [])), sleeps w @ [5])"
        using sv Nil k' by simp
      have c0: "count_entries [] (full_content s) = 0" by (simp add: count_entries_def)
      show ?thesis
      proof (rule step [OF rl])
        fix s1 :: fetch_state
        assume "empty_page_count s1 =
          (if count_entries [] (full_content s) = 0 then empty_page_count s + 1 else 0)"
        with c0 have "empty_page_count s1 = empty_page_count s + 1" by simp
        with k Nil k' have "replicate k' (Content (Feed [])) = [] @ replicate k' (Content (Feed [])) \<and>
            list_all (\<lambda>r. case r of Content c \<Rightarrow> True | _ \<Rightarrow> False) [] \<and>
            3 \<le> k' + (if ([] :: response list) = [] then empty_page_count s1 else 0)" by simp
        then show "\<exists>pre k. replicate k' (Content (Feed [])) = pre @ replicate k (Content (Feed [])) \<and>
            list_all (\<lambda>r. case r of Content c \<Rightarrow> True | _ \<Rightarrow> False) pre \<and>
            3 \<le> k + (if pre = [] then empty_page_count s1 else 0)" by blast
      qed
    next
      case (Cons a pre')
      with ct obtain c where a: "a = Content c"
        and ct': "list_all (\<lambda>r. case r of Content c \<Rightarrow> True | _ \<Rightarrow> False) pre'"
        by (cases a) auto
      from k Cons have k3: "3 \<le> k" by simp
      let ?rest = "pre' @ replicate k (Content (Feed []))"
      have rl: "retry_loop 0 (server w) (sleeps w @ [5]) = Some (Got c, ?rest, sleeps w @ [5])"
        using sv Cons a by simp
      show ?thesis
      proof (cases c)
        case ParseError
        with rl have "loop_body dumps s w =
            Some (Break s, w\<lparr>server := ?rest, sleeps := sleeps w @ [5]\<rparr>)"
          by (simp add: loop_body_def)
        with True show ?thesis by (simp add: fetch_loop.simps [of dumps target s w])
      next
        case (Feed entries)
        show ?thesis
        proof (rule step [OF rl [unfolded Feed]])
          fix s1 :: fetch_state
          from ct' k3 have "?rest = pre' @ replicate k (Content (Feed [])) \<and>
              list_all (\<lambda>r. case r of Content c \<Rightarrow> True | _ \<Rightarrow> False) pre' \<and>
              3 \<le> k + (if pre' = [] then empty_page_count s1 else 0)" by simp
          then show "\<exists>pre k'. ?rest = pre @ replicate k' (Content (Feed [])) \<and>
              list_all (\<lambda>r. case r of Content c \<Rightarrow> True | _ \<Rightarrow> False) pre \<and>
              3 \<le> k' + (if pre = [] then empty_page_count s1 else 0)" by blast
        qed
      qed
    qed
  qed
qed

lemma ends_with_empty_feeds_split:
  assumes "ends_with_empty_feeds k responses"
  shows "\<exists>pre. responses = pre @ replicate k (Content (Feed [])) \<and>
     list_all (\<lambda>r. case r of Content c \<Rightarrow> True | _ \<Rightarrow> False) pre"
proof -
  let ?pre = "take (length responses - k) responses"
  from assms have d: "drop (length responses - k) responses = replicate k (Content (Feed []))"
    and a: "list_all (\<lambda>r. case r of Content c \<Rightarrow> True | _ \<Rightarrow> False) responses"
    by (simp_all add: ends_with_empty_feeds_def)
  have "responses = ?pre @ drop (length responses - k) responses" by simp
  with d have "responses = ?pre @ replicate k (Content (Feed []))" by simp
  moreover have "list_all (\<lambda>r. case r of Content c \<Rightarrow> True | _ \<Rightarrow> False) ?pre"
    using a by (auto simp: list_all_iff dest: in_set_takeD)
  ultimately show ?thesis by blast
qed

lemma get_daily_papers_returns:
  assumes "ends_with_empty_feeds 3 (server w)"
  shows "get_daily_papers dumps cur dir max_results sd ed w \<noteq> None"
proof -
  from ends_with_empty_feeds_split [OF assms] obtain pre where
    p: "server w = pre @ replicate 3 (Content (Feed []))"
      "list_all (\<lambda>r. case r of Content c \<Rightarrow> True | _ \<Rightarrow> False) pre" by blast
  have fl: "fetch_loop dumps t s w \<noteq> None" for t s
  proof (rule fetch_loop_returns)
    from p have "server w = pre @ replicate 3 (Content (Feed [])) \<and>
      list_all (\<lambda>r. case r of Content c \<Rightarrow> True | _ \<Rightarrow> False) pre \<and>
      3 \<le> 3 + (if pre = [] then empty_page_count s else 0)" by simp
    then show "\<exists>pre k. server w = pre @ replicate k (Content (Feed [])) \<and>
      list_all (\<lambda>r. case r of Content c \<Rightarrow> True | _ \<Rightarrow> False) pre \<and>
      3 \<le> k + (if pre = [] then empty_page_count s else 0)" by blast
  qed
  let ?t = "if truthy sd \<and> truthy ed \<and> max_results = Some 100 then None else max_results"
  let ?s0 = "\<lparr>start = 0, empty_page_count = 0, full_content = [],
      existing_data = load_existing_metadata_files False cur dir, new_papers_count = 0\<rparr>"
  from fl [of ?t ?s0] obtain s w' where "fetch_loop dumps ?t ?s0 w = Some (s, w')" by auto
  then show ?thesis by (simp add: get_daily_papers_def Let_def)
qed

lemma get_daily_papers_contents:
  assumes "get_daily_papers dumps cur dir max_results sd ed w = Some ((fc, n), w')"
  shows "suffix (server w') (server w) \<and> fc = fold add_entry (fetched_entries w w') []"
proof -
  from assms obtain t s0 s where fl: "fetch_loop dumps t s0 w = Some (s, w')"
    and s0: "full_content s0 = []" and fc: "fc = full_content s"
    by (auto simp: get_daily_papers_def Let_def split: option.splits)
  from fetch_loop_contents [OF fl] obtain c where c: "server w = c @ server w'"
    "full_content s = fold add_entry (feed_entries c) (full_content s0)" by blast
  have "take (length (server w) - length (server w')) (server w) = c" using c(1) by simp
  then have "fetched_entries w w' = feed_entries c" by (simp add: fetched_entries_def)
  with c s0 fc show ?thesis by (auto simp: suffix_def)
qed


text \<open>
  Claim C6, amended. A call of \<open>get_daily_papers\<close> returns whenever the server answers
  every request with a feed and the last three feeds have no entry. In every call that
  returns, the responses taken from the server are an initial part of its list, the keys
  of the accumulated output \<open>full_content\<close> are pairwise distinct, and under every key
  the output has the record of the first fetched entry that gives a record with that
  key, if there is one. In the terms of the feed: let \<open>e\<close> be a fetched entry that is
  complete (no search-info entry, with an \<^verbatim>\<open>id\<close> with text and a \<^verbatim>\<open>title\<close>, and
  without an empty author name, summary or date), with an identifier \<open>raw\<close> as the API
  gives them, and let no complete entry fetched before \<open>e\<close> have the same canonical ID
  (\<open>normalize_arxiv_id\<close> of the identifier). Then the output has exactly one record
  under the canonical ID of \<open>e\<close>, and it is the one built from \<open>e\<close>: its \<^verbatim>\<open>id\<close> is the
  canonical ID, its \<^verbatim>\<open>entry_id\<close> is \<open>raw\<close>, its \<^verbatim>\<open>title\<close> is the title of \<open>e\<close>. The
  entries fetched after \<open>e\<close> with the same canonical ID, however many, change nothing.
  Entries that are not complete give no record: an ID that only such entries have is
  not in the output.
\<close>

theorem first_occurrence_wins:
  "(ends_with_empty_feeds 3 (server w) \<longrightarrow>
      get_daily_papers dumps cur dir max_results sd ed w \<noteq> None) \<and>
   (get_daily_papers dumps cur dir max_results sd ed w = Some ((fc, n), w') \<longrightarrow>
      suffix (server w') (server w) \<and> distinct (map fst fc) \<and>
      (\<forall>k. map_of fc k = first_record k (fetched_entries w w'))) \<and>
   (get_daily_papers dumps cur dir max_results sd ed w = Some ((fc, n), w') \<and>
    fetched_entries w w' = xs @ e # ys \<and>
    complete_entry e \<and> api_form e \<and> raw_id e = Some raw \<and>
    (\<forall>x \<in> set xs. complete_entry x \<longrightarrow>
       api_form x \<and> entry_canonical_id x \<noteq> entry_canonical_id e) \<longrightarrow>
      (\<exists>p. filter (\<lambda>r. fst r = normalize_arxiv_id raw) fc = [(normalize_arxiv_id raw, p)] \<and>
           map_of p ''id'' = Some (JStr (normalize_arxiv_id raw)) \<and>
           map_of p ''entry_id'' = Some (JStr raw) \<and>
           map_of p ''title'' = Some (opt_str (title_text e)))) \<and>
   (get_daily_papers dumps cur dir max_results sd ed w = Some ((fc, n), w') \<and>
    (\<forall>x \<in> set (fetched_entries w w'). complete_entry x \<longrightarrow>
       api_form x \<and> entry_canonical_id x \<noteq> Some k) \<longrightarrow>
      map_of fc k = None)"
proof (intro conjI impI)
  assume "ends_with_empty_feeds 3 (server w)"
  then show "get_daily_papers dumps cur dir max_results sd ed w \<noteq> None"
    by (rule get_daily_papers_returns)
next
  assume "get_daily_papers dumps cur dir max_results sd ed w = Some ((fc, n), w')"
  from get_daily_papers_contents [OF this]
  have sf: "suffix (server w') (server w)"
    and eq: "fc = fold add_entry (fetched_entries w w') []" by simp_all
  note f = fold_add_entry_first [of "fetched_entries w w'"]
  show "suffix (server w') (server w)" by (rule sf)
  show "distinct (map fst fc)" using f unfolding eq by blast
  show "\<forall>k. map_of fc k = first_record k (fetched_entries w w')" using f unfolding eq by blast
next
  assume a: "get_daily_papers dumps cur dir max_results sd ed w = Some ((fc, n), w') \<and>
    fetched_entries w w' = xs @ e # ys \<and>
    complete_entry e \<and> api_form e \<and> raw_id e = Some raw \<and>
    (\<forall>x \<in> set xs. complete_entry x \<longrightarrow>
       api_form x \<and> entry_canonical_id x \<noteq> entry_canonical_id e)"
  then have run: "get_daily_papers dumps cur dir max_results sd ed w = Some ((fc, n), w')"
    and es: "fetched_entries w w' = xs @ e # ys"
    and ce: "complete_entry e" and ae: "api_form e" and raw: "raw_id e = Some raw"
    and before: "\<And>x. x \<in> set xs \<Longrightarrow> complete_entry x \<Longrightarrow>
       api_form x \<and> entry_canonical_id x \<noteq> entry_canonical_id e"
    by simp_all
  let ?k = "normalize_arxiv_id raw"
  from get_daily_papers_contents [OF run]
  have eq: "fc = fold add_entry (xs @ e # ys) []" by (simp add: es)
  from ae raw have "contains ''/abs/'' raw \<or> \<not> contains ''arxiv.org'' raw"
    by (simp add: api_form_def)
  then have k: "extract_paper_id raw = ?k" by (rule extract_paper_id_normalize)
  from entry_record_complete [OF ce raw] obtain p where
    p: "entry_record e = Some (?k, p)" "map_of p ''id'' = Some (JStr ?k)"
      "map_of p ''entry_id'' = Some (JStr raw)" "map_of p ''title'' = Some (opt_str (title_text e))"
    unfolding k by blast
  have ck: "entry_canonical_id e = Some ?k" using raw by (simp add: entry_canonical_id_def)
  have no: "\<forall>x \<in> set xs. \<forall>q. entry_record x \<noteq> Some (?k, q)"
  proof (intro ballI allI notI)
    fix x q
    assume x: "x \<in> set xs" and r: "entry_record x = Some (?k, q)"
    from r have cx: "complete_entry x" using entry_record_incomplete [of x] by (cases "complete_entry x") auto
    from before [OF x cx] have ax: "api_form x"
      and ne: "entry_canonical_id x \<noteq> entry_canonical_id e" by simp_all
    from entry_key_canonical [OF ax r] ck ne show False by simp
  qed
  have "first_record ?k (xs @ e # ys) = Some p" using no p(1) by (rule first_record_split)
  then have "filter (\<lambda>r. fst r = ?k) fc = [(?k, p)]"
    using fold_add_entry_first [of "xs @ e # ys" ?k] unfolding eq by simp
  with p(2-4) show "\<exists>p. filter (\<lambda>r. fst r = ?k) fc = [(?k, p)] \<and>
           map_of p ''id'' = Some (JStr ?k) \<and>
           map_of p ''entry_id'' = Some (JStr raw) \<and>
           map_of p ''title'' = Some (opt_str (title_text e))" by blast
next
  assume a: "get_daily_papers dumps cur dir max_results sd ed w = Some ((fc, n), w') \<and>
    (\<forall>x \<in> set (fetched_entries w w'). complete_entry x \<longrightarrow>
       api_form x \<and> entry_canonical_id x \<noteq> Some k)"
  then have run: "get_daily_papers dumps cur dir max_results sd ed w = Some ((fc, n), w')"
    and all: "\<And>x. x \<in> set (fetched_entries w w') \<Longrightarrow> complete_entry x \<Longrightarrow>
       api_form x \<and> entry_canonical_id x \<noteq> Some k"
    by simp_all
  from get_daily_papers_contents [OF run]
  have eq: "fc = fold add_entry (fetched_entries w w') []" by simp
  have no: "\<forall>x \<in> set (fetched_entries w w'). \<forall>q. entry_record x \<noteq> Some (k, q)"
  proof (intro ballI allI notI)
    fix x q
    assume x: "x \<in> set (fetched_entries w w')" and r: "entry_record x = Some (k, q)"
    from r have cx: "complete_entry x" using entry_record_incomplete [of x] by (cases "complete_entry x") auto
    from all [OF x cx] have ax: "api_form x" and ne: "entry_canonical_id x \<noteq> Some k" by simp_all
    from entry_key_canonical [OF ax r] ne show False by simp
  qed
  then have "first_record k (fetched_entries w w') = None" by (rule first_record_none)
  then show "map_of fc k = None"
    using fold_add_entry_first [of "fetched_entries w w'" k] unfolding eq by simp
qed

theorem first_occurrence_wins_witness:
  "get_daily_papers id_line ''202611'' None None None None
      (fresh_world
        [Content (Feed [(paper_entry ''http://arxiv.org/abs/2101.00001v1'' ''First'')\<lparr>e_title := Missing\<rparr>,
                        paper_entry ''http://arxiv.org/abs/2101.00001v2'' ''Second'',
                        paper_entry ''http://arxiv.org/abs/2101.00001v3'' ''Third'']),
         Content (Feed []), Content (Feed []), Content (Feed [])] []) \<noteq> None \<and>
   suffix (server \<lparr>server = [], sleeps = [5, 5, 5, 5, 5],
        arxiv_file = Some (''2101.00001'' @ [newline]), write_faults = []\<rparr>)
     (server (fresh_world
        [Content (Feed [(paper_entry ''http://arxiv.org/abs/2101.00001v1'' ''First'')\<lparr>e_title := Missing\<rparr>,
                        paper_entry ''http://arxiv.org/abs/2101.00001v2'' ''Second'',
                        paper_entry ''http://arxiv.org/abs/2101.00001v3'' ''Third'']),
         Content (Feed []), Content (Feed []), Content (Feed [])] [])) \<and>
   distinct (map fst
      [(''2101.00001'',
          [(''id'', JStr ''2101.00001''), (''authors'', JStr ''None''),
           (''title'', JStr ''Second''), (''comments'', JNull),
           (''journal-ref'', JNull), (''doi'', JNull),
           (''categories'', JArr []), (''abstract'', JStr []),
           (''update_date'', JStr []), (''authors_parsed'', JArr []),
           (''primary_category'', JNull), (''publish_time'', JStr []),
           (''entry_id'', JStr ''http://arxiv.org/abs/2101.00001v2''),
           (''links'', JArr [])])]) \<and>
   (\<forall>k. map_of
      [(''2101.00001'',
          [(''id'', JStr ''2101.00001''), (''authors'', JStr ''None''),
           (''title'', JStr ''Second''), (''comments'', JNull),
           (''journal-ref'', JNull), (''doi'', JNull),
           (''categories'', JArr []), (''abstract'', JStr []),
           (''update_date'', JStr []), (''authors_parsed'', JArr []),
           (''primary_category'', JNull), (''publish_time'', JStr []),
           (''entry_id'', JStr ''http://arxiv.org/abs/2101.00001v2''),
           (''links'', JArr [])])] k =
     first_record k (fetched_entries
      (fresh_world
        [Content (Feed [(paper_entry ''http://arxiv.org/abs/2101.00001v1'' ''First'')\<lparr>e_title := Missing\<rparr>,
                        paper_entry ''http://arxiv.org/abs/2101.00001v2'' ''Second'',
                        paper_entry ''http://arxiv.org/abs/2101.00001v3'' ''Third'']),
         Content (Feed []), Content (Feed []), Content (Feed [])] [])
      \<lparr>server = [], sleeps = [5, 5, 5, 5, 5],
        arxiv_file = Some (''2101.00001'' @ [newline]), write_faults = []\<rparr>)) \<and>
   (\<exists>p. filter (\<lambda>r. fst r = normalize_arxiv_id ''http://arxiv.org/abs/2101.00001v2'')
           [(''2101.00001'',
          [(''id'', JStr ''2101.00001''), (''authors'', JStr ''None''),
           (''title'', JStr ''Second''), (''comments'', JNull),
           (''journal-ref'', JNull), (''doi'', JNull),
           (''categories'', JArr []), (''abstract'', JStr []),
           (''update_date'', JStr []), (''authors_parsed'', JArr []),
           (''primary_category'', JNull), (''publish_time'', JStr []),
           (''entry_id'', JStr ''http://arxiv.org/abs/2101.00001v2''),
           (''links'', JArr [])])] =
         [(normalize_arxiv_id ''http://arxiv.org/abs/2101.00001v2'', p)] \<and>
        map_of p ''id'' = Some (JStr (normalize_arxiv_id ''http://arxiv.org/abs/2101.00001v2'')) \<and>
        map_of p ''entry_id'' = Some (JStr ''http://arxiv.org/abs/2101.00001v2'') \<and>
        map_of p ''title'' =
          Some (opt_str (title_text (paper_entry ''http://arxiv.org/abs/2101.00001v2'' ''Second'')))) \<and>
   map_of
      [(''2101.00001'',
          [(''id'', JStr ''2101.00001''), (''authors'', JStr ''None''),
           (''title'', JStr ''Second''), (''comments'', JNull),
           (''journal-ref'', JNull), (''doi'', JNull),
           (''categories'', JArr []), (''abstract'', JStr []),
           (''update_date'', JStr []), (''authors_parsed'', JArr []),
           (''primary_category'', JNull), (''publish_time'', JStr []),
           (''entry_id'', JStr ''http://arxiv.org/abs/2101.00001v2''),
           (''links'', JArr [])])] ''2101.00002'' = None"
proof -
  let ?e0 = "(paper_entry ''http://arxiv.org/abs/2101.00001v1'' ''First'')\<lparr>e_title := Missing\<rparr>"
  let ?e1 = "paper_entry ''http://arxiv.org/abs/2101.00001v2'' ''Second''"
  let ?e2 = "paper_entry ''http://arxiv.org/abs/2101.00001v3'' ''Third''"
  let ?w = "fresh_world [Content (Feed [?e0, ?e1, ?e2]),
      Content (Feed []), Content (Feed []), Content (Feed [])] []"
  let ?w' = "\<lparr>server = [], sleeps = [5, 5, 5, 5, 5],
        arxiv_file = Some (''2101.00001'' @ [newline]), write_faults = []\<rparr>"
  let ?fc = "[(''2101.00001'',
          [(''id'', JStr ''2101.00001''), (''authors'', JStr ''None''),
           (''title'', JStr ''Second''), (''comments'', JNull),
           (''journal-ref'', JNull), (''doi'', JNull),
           (''categories'', JArr []), (''abstract'', JStr []),
           (''update_date'', JStr []), (''authors_parsed'', JArr []),
           (''primary_category'', JNull), (''publish_time'', JStr []),
           (''entry_id'', JStr ''http://arxiv.org/abs/2101.00001v2''),
           (''links'', JArr [])])]"
  have ends: "ends_with_empty_feeds 3 (server ?w)"
    by (simp add: ends_with_empty_feeds_def fresh_world_def numeral_eq_Suc)
  have run: "get_daily_papers id_line ''202611'' None None None None ?w = Some ((?fc, 1), ?w')"
    by code_simp
  have fe: "fetched_entries ?w ?w' = [?e0] @ ?e1 # [?e2]"
    by (simp add: fetched_entries_def fresh_world_def)
  have ce: "complete_entry ?e1" by code_simp
  have ae: "api_form ?e1" by code_simp
  have raw: "raw_id ?e1 = Some ''http://arxiv.org/abs/2101.00001v2''"
    by (simp add: raw_id_def paper_entry_def)
  have before: "\<forall>x \<in> set [?e0]. complete_entry x \<longrightarrow>
      api_form x \<and> entry_canonical_id x \<noteq> entry_canonical_id ?e1"
    by (simp add: complete_entry_def paper_entry_def)
  have all: "\<forall>x \<in> set (fetched_entries ?w ?w'). complete_entry x \<longrightarrow>
      api_form x \<and> entry_canonical_id x \<noteq> Some ''2101.00002''"
    unfolding fe by code_simp
  note p1 = first_occurrence_wins [THEN conjunct1, rule_format, OF ends]
  note p2 = first_occurrence_wins [THEN conjunct2, THEN conjunct1, rule_format, OF run]
  note p3 = first_occurrence_wins [THEN conjunct2, THEN conjunct2, THEN conjunct1, rule_format,
      OF conjI [OF run conjI [OF fe conjI [OF ce conjI [OF ae conjI [OF raw before]]]]]]
  note p4 = first_occurrence_wins [THEN conjunct2, THEN conjunct2, THEN conjunct2, rule_format,
      OF conjI [OF run all]]
  show ?thesis
    by (intro conjI p1 p2 [THEN conjunct1] p2 [THEN conjunct2, THEN conjunct1]
        p2 [THEN conjunct2, THEN conjunct2] p3 p4)
qed

text \<open>
  The claim as it is written does not hold: of the two entries of the page below, which
  normalize to the same canonical ID, the first has no \<^verbatim>\<open>title\<close> element, so the loop
  leaves it without a record, and the record in the output is built from the second.
\<close>

theorem second_entry_wins:
  "entry_canonical_id ((paper_entry ''http://arxiv.org/abs/2101.00001v1'' ''First'')\<lparr>e_title := Missing\<rparr>) =
     Some ''2101.00001'' \<and>
   entry_canonical_id (paper_entry ''http://arxiv.org/abs/2101.00001v2'' ''Second'') = Some ''2101.00001'' \<and>
   get_daily_papers id_line ''202611'' None None None None
       (fresh_world
          [Content (Feed [(paper_entry ''http://arxiv.org/abs/2101.00001v1'' ''First'')\<lparr>e_title := Missing\<rparr>,
                          paper_entry ''http://arxiv.org/abs/2101.00001v2'' ''Second'']),
           Content (Feed []), Content (Feed []), Content (Feed [])] []) =
     Some (([(''2101.00001'',
          [(''id'', JStr ''2101.00001''), (''authors'', JStr ''None''),
           (''title'', JStr ''Second''), (''comments'', JNull),
           (''journal-ref'', JNull), (''doi'', JNull),
           (''categories'', JArr []), (''abstract'', JStr []),
           (''update_date'', JStr []), (''authors_parsed'', JArr []),
           (''primary_category'', JNull), (''publish_time'', JStr []),
           (''entry_id'', JStr ''http://arxiv.org/abs/2101.00001v2''),
           (''links'', JArr [])])], 1),
           \<lparr>server = [], sleeps = [5, 5, 5, 5, 5],
        arxiv_file = Some (''2101.00001'' @ [newline]), write_faults = []\<rparr>)"
  by code_simp

subsection \<open>Pages and retries\<close>

text \<open>
  Claim C5, amended. For every turn of the fetch loop whose request returns a feed: a page
  with zero real entries increments the streak of empty pages, and the loop breaks, with
  \<open>start\<close> as it was, when the streak reaches 3, and otherwise goes on with \<open>start\<close>
  advanced by 100; a page with a real entry resets the streak to zero and advances
  \<open>start\<close> by 100. So \<open>start\<close> advances after every page that does not end the loop,
  empty or not.
\<close>

theorem page_step:
  assumes "retry_loop 0 (server w) (sleeps w @ [5]) = Some (Got (Feed entries), rest, slept)"
  shows "\<exists>s' w'.
     (if count_entries entries (full_content s) = 0
      then empty_page_count s' = empty_page_count s + 1 \<and>
           (if 3 \<le> empty_page_count s + 1
            then loop_body dumps s w = Some (Break s', w') \<and> start s' = start s
            else loop_body dumps s w = Some (Next s', w') \<and> start s' = start s + 100)
      else loop_body dumps s w = Some (Next s', w') \<and> empty_page_count s' = 0 \<and>
           start s' = start s + 100)"
proof -
  from loop_body_page [OF assms, of dumps s] obtain r w' where
    lb: "loop_body dumps s w = Some (r, w')" and
    p: "if count_entries entries (full_content s) = 0
      then empty_page_count (flow_state r) = empty_page_count s + 1 \<and>
           (if max_empty_pages \<le> empty_page_count s + 1
            then r = Break (flow_state r) \<and> start (flow_state r) = start s
            else r = Next (flow_state r) \<and> start (flow_state r) = start s + batch_size)
      else r = Next (flow_state r) \<and> empty_page_count (flow_state r) = 0 \<and>
           start (flow_state r) = start s + batch_size"
    by blast
  show ?thesis
    using lb p
    by (intro exI [of _ "flow_state r"] exI [of _ w'])
      (auto simp: max_empty_pages_def batch_size_def split: if_splits)
qed

theorem page_step_witness:
  "\<exists>s' w'.
     (if count_entries [] (full_content (initial_state\<lparr>empty_page_count := 2\<rparr>)) = 0
      then empty_page_count s' = empty_page_count (initial_state\<lparr>empty_page_count := 2\<rparr>) + 1 \<and>
           (if 3 \<le> empty_page_count (initial_state\<lparr>empty_page_count := 2\<rparr>) + 1
            then loop_body (\<lambda>d. ''{}'') (initial_state\<lparr>empty_page_count := 2\<rparr>)
                   (fresh_world [Content (Feed [])] []) = Some (Break s', w') \<and>
                 start s' = start (initial_state\<lparr>empty_page_count := 2\<rparr>)
            else loop_body (\<lambda>d. ''{}'') (initial_state\<lparr>empty_page_count := 2\<rparr>)
                   (fresh_world [Content (Feed [])] []) = Some (Next s', w') \<and>
                 start s' = start (initial_state\<lparr>empty_page_count := 2\<rparr>) + 100)
      else loop_body (\<lambda>d. ''{}'') (initial_state\<lparr>empty_page_count := 2\<rparr>)
             (fresh_world [Content (Feed [])] []) = Some (Next s', w') \<and>
           empty_page_count s' = 0 \<and>
           start s' = start (initial_state\<lparr>empty_page_count := 2\<rparr>) + 100)"
proof -
  have r: "retry_loop 0 (server (fresh_world [Content (Feed [])] []))
      (sleeps (fresh_world [Content (Feed [])] []) @ [5]) = Some (Got (Feed []), [], [5])"
    by (simp add: fresh_world_def)
  show ?thesis by (rule page_step [OF r])
qed

text \<open>
  Claim C5 as stated fails in its last part: on the first empty page of a run the loop
  goes on with \<open>start\<close> advanced from 0 to 100.
\<close>

theorem empty_page_advances_start:
  "count_entries [] [] = 0 \<and>
   loop_body (\<lambda>d. ''{}'') initial_state (fresh_world [Content (Feed [])] []) =
     Some (Next \<lparr>start = 100, empty_page_count = 1, full_content = [], existing_data = {},
                 new_papers_count = 0\<rparr>,
           \<lparr>server = [], sleeps = [5], arxiv_file = None, write_faults = []\<rparr>)"
  by (simp add: count_entries_def loop_body_def initial_state_def fresh_world_def
      max_empty_pages_def batch_size_def)


lemma retry_503_steps:
  "n + k < max_retries \<Longrightarrow>
   retry_loop n (replicate k (HTTPError 503) @ srv) slept =
   retry_loop (n + k) srv (slept @ map (\<lambda>i. 10 * i) [n + 1..<n + k + 1])"
proof (induction k arbitrary: n slept)
  case 0
  then show ?case by simp
next
  case (Suc k)
  then have lt: "n + 1 + k < max_retries" by simp
  have u: "[n + 1..<n + Suc k + 1] = (n + 1) # [n + 1 + 1..<n + 1 + k + 1]"
    by (subst upt_rec) simp
  have "retry_loop n (replicate (Suc k) (HTTPError 503) @ srv) slept =
      retry_loop (n + 1) (replicate k (HTTPError 503) @ srv) (slept @ [10 * (n + 1)])"
    using Suc.prems by (simp add: Let_def)
  also have "\<dots> = retry_loop (n + 1 + k) srv
      ((slept @ [10 * (n + 1)]) @ map (\<lambda>i. 10 * i) [n + 1 + 1..<n + 1 + k + 1])"
    by (rule Suc.IH [OF lt])
  also have "\<dots> = retry_loop (n + Suc k) srv (slept @ map (\<lambda>i. 10 * i) [n + 1..<n + Suc k + 1])"
    by (simp only: u) simp
  finally show ?case .
qed

lemma retry_other_steps:
  "n + k < max_retries \<Longrightarrow>
   retry_loop n (replicate k OtherError @ srv) slept =
   retry_loop (n + k) srv (slept @ map (\<lambda>i. 5 * i) [n + 1..<n + k + 1])"
proof (induction k arbitrary: n slept)
  case 0
  then show ?case by simp
next
  case (Suc k)
  then have lt: "n + 1 + k < max_retries" by simp
  have u: "[n + 1..<n + Suc k + 1] = (n + 1) # [n + 1 + 1..<n + 1 + k + 1]"
    by (subst upt_rec) simp
  have "retry_loop n (replicate (Suc k) (OtherError) @ srv) slept =
      retry_loop (n + 1) (replicate k (OtherError) @ srv) (slept @ [5 * (n + 1)])"
    using Suc.prems by (simp add: Let_def)
  also have "\<dots> = retry_loop (n + 1 + k) srv
      ((slept @ [5 * (n + 1)]) @ map (\<lambda>i. 5 * i) [n + 1 + 1..<n + 1 + k + 1])"
    by (rule Suc.IH [OF lt])
  also have "\<dots> = retry_loop (n + Suc k) srv (slept @ map (\<lambda>i. 5 * i) [n + 1..<n + Suc k + 1])"
    by (simp only: u) simp
  finally show ?case .
qed

lemma retry_503_exhausted:
  "retry_loop 0 (replicate 5 (HTTPError 503) @ rest) slept =
   Some (RaisedHTTP 503, rest, slept @ [10, 20, 30, 40])"
proof -
  have "replicate 5 (HTTPError 503) @ rest = replicate 4 (HTTPError 503) @ HTTPError 503 # rest"
    by (simp add: numeral_eq_Suc)
  moreover have "[1..<5] = [1, 2, 3, 4::nat]" by (simp add: upt_conv_Cons)
  ultimately show ?thesis
    using retry_503_steps [of 0 4 "HTTPError 503 # rest" slept]
    by (simp add: max_retries_def)
qed

lemma retry_other_exhausted:
  "retry_loop 0 (replicate 5 OtherError @ rest) slept =
   Some (RaisedOther, rest, slept @ [5, 10, 15, 20])"
proof -
  have "replicate 5 OtherError @ rest = replicate 4 OtherError @ OtherError # rest"
    by (simp add: numeral_eq_Suc)
  moreover have "[1..<5] = [1, 2, 3, 4::nat]" by (simp add: upt_conv_Cons)
  ultimately show ?thesis
    using retry_other_steps [of 0 4 "OtherError # rest" slept]
    by (simp add: max_retries_def)
qed

text \<open>
  Claim C4, amended. For every page request of \<open>get_daily_papers\<close>:
  \<^item> a request that fails with HTTP status 503 is attempted up to 5 times in a row, the
    \<open>i\<close>-th failure being followed by a wait of \<open>10 * i\<close> seconds (10, 20, 30, 40);
  \<^item> when the fifth attempt fails with 503 as well, the error does not leave
    \<open>get_daily_papers\<close>: the loop waits 10 seconds and goes on with its state as it was,
    so the same page is requested again;
  \<^item> a failure that is no HTTP error is attempted up to 5 times, with waits of \<open>5 * i\<close>
    seconds; after the fifth failure the loop ends;
  \<^item> any other HTTP failure ends the loop at once;
  \<^item> where the loop ends this way the call returns what it has accumulated.
\<close>

theorem retry_policy:
  "(k < 5 \<longrightarrow>
      retry_loop 0 (replicate k (HTTPError 503) @ Content c # rest) slept =
        Some (Got c, rest, slept @ map (\<lambda>i. 10 * i) [1..<k + 1])) \<and>
   loop_body dumps s (w\<lparr>server := replicate 5 (HTTPError 503) @ rest\<rparr>) =
     Some (Next s, w\<lparr>server := rest, sleeps := sleeps w @ [5, 10, 20, 30, 40, 10]\<rparr>) \<and>
   (k < 5 \<longrightarrow>
      retry_loop 0 (replicate k OtherError @ Content c # rest) slept =
        Some (Got c, rest, slept @ map (\<lambda>i. 5 * i) [1..<k + 1])) \<and>
   loop_body dumps s (w\<lparr>server := replicate 5 OtherError @ rest\<rparr>) =
     Some (Break s, w\<lparr>server := rest, sleeps := sleeps w @ [5, 5, 10, 15, 20]\<rparr>) \<and>
   (k < 5 \<and> code \<noteq> 503 \<longrightarrow>
      loop_body dumps s (w\<lparr>server := replicate k (HTTPError 503) @ HTTPError code # rest\<rparr>) =
        Some (Break s, w\<lparr>server := rest,
                          sleeps := sleeps w @ [5] @ map (\<lambda>i. 10 * i) [1..<k + 1]\<rparr>)) \<and>
   ((case target of None \<Rightarrow> True | Some t \<Rightarrow> start s < t) \<and> empty_page_count s < 3 \<and>
    loop_body dumps s w = Some (Break s', w') \<longrightarrow>
      fetch_loop dumps target s w = Some (s', w'))"
proof -
  have a: "retry_loop 0 (replicate k (HTTPError 503) @ Content c # rest) slept =
        Some (Got c, rest, slept @ map (\<lambda>i. 10 * i) [1..<k + 1])" if "k < 5"
    using retry_503_steps [of 0 k "Content c # rest" slept] that by (simp add: max_retries_def)
  have b: "loop_body dumps s (w\<lparr>server := replicate 5 (HTTPError 503) @ rest\<rparr>) =
     Some (Next s, w\<lparr>server := rest, sleeps := sleeps w @ [5, 10, 20, 30, 40, 10]\<rparr>)"
    using retry_503_exhausted [of rest "sleeps w @ [5]"] by (simp add: loop_body_def)
  have c: "retry_loop 0 (replicate k OtherError @ Content c # rest) slept =
        Some (Got c, rest, slept @ map (\<lambda>i. 5 * i) [1..<k + 1])" if "k < 5"
    using retry_other_steps [of 0 k "Content c # rest" slept] that by (simp add: max_retries_def)
  have d: "loop_body dumps s (w\<lparr>server := replicate 5 OtherError @ rest\<rparr>) =
     Some (Break s, w\<lparr>server := rest, sleeps := sleeps w @ [5, 5, 10, 15, 20]\<rparr>)"
    using retry_other_exhausted [of rest "sleeps w @ [5]"] by (simp add: loop_body_def)
  have e: "loop_body dumps s (w\<lparr>server := replicate k (HTTPError 503) @ HTTPError code # rest\<rparr>) =
        Some (Break s, w\<lparr>server := rest,
                          sleeps := sleeps w @ [5] @ map (\<lambda>i. 10 * i) [1..<k + 1]\<rparr>)"
    if "k < 5" "code \<noteq> 503"
    using retry_503_steps [of 0 k "HTTPError code # rest" "sleeps w @ [5]"] that
    by (simp add: max_retries_def loop_body_def)
  have f: "fetch_loop dumps target s w = Some (s', w')"
    if "(case target of None \<Rightarrow> True | Some t \<Rightarrow> start s < t)" "empty_page_count s < 3"
      "loop_body dumps s w = Some (Break s', w')"
    using that by (simp add: fetch_loop.simps [of dumps target s w] max_empty_pages_def)
  show ?thesis using a b c d e f by blast
qed

theorem retry_policy_witness:
  "retry_loop 0 (replicate 2 (HTTPError 503) @ Content (Feed []) # []) [5] =
     Some (Got (Feed []), [], [5] @ map (\<lambda>i. 10 * i) [1..<2 + 1]) \<and>
   retry_loop 0 (replicate 4 OtherError @ Content (Feed []) # []) [5] =
     Some (Got (Feed []), [], [5] @ map (\<lambda>i. 5 * i) [1..<4 + 1]) \<and>
   loop_body (\<lambda>d. ''{}'') initial_state
       ((fresh_world [] [])\<lparr>server := replicate 1 (HTTPError 503) @ HTTPError 404 # []\<rparr>) =
     Some (Break initial_state,
           (fresh_world [] [])\<lparr>server := [],
              sleeps := sleeps (fresh_world [] []) @ [5] @ map (\<lambda>i. 10 * i) [1..<1 + 1]\<rparr>) \<and>
   fetch_loop (\<lambda>d. ''{}'') (Some 100) initial_state (fresh_world [HTTPError 404] []) =
     Some (initial_state, (fresh_world [HTTPError 404] [])\<lparr>server := [], sleeps := [5]\<rparr>)"
proof -
  have a: "(2::nat) < 5" by simp
  have b: "(4::nat) < 5" by simp
  have c: "(1::nat) < 5 \<and> (404::nat) \<noteq> 503" by simp
  have d: "(case Some (100::int) of None \<Rightarrow> True | Some t \<Rightarrow> start initial_state < t) \<and>
      empty_page_count initial_state < 3 \<and>
      loop_body (\<lambda>d. ''{}'') initial_state (fresh_world [HTTPError 404] []) =
        Some (Break initial_state, (fresh_world [HTTPError 404] [])\<lparr>server := [], sleeps := [5]\<rparr>)"
    by (simp add: initial_state_def fresh_world_def loop_body_def)
  note p = retry_policy [THEN conjunct1, rule_format, OF a]
  note q = retry_policy [THEN conjunct2, THEN conjunct2, THEN conjunct1, rule_format, OF b]
  note r = retry_policy [THEN conjunct2, THEN conjunct2, THEN conjunct2, THEN conjunct2,
      THEN conjunct1, rule_format, OF c]
  note t = retry_policy [THEN conjunct2, THEN conjunct2, THEN conjunct2, THEN conjunct2,
      THEN conjunct2, rule_format, OF d]
  show ?thesis by (intro conjI p q r t)
qed

text \<open>
  Claim C4 as stated fails where it says that exhausted retries are fatal to the fetch
  call: with five responses 503 in a row the retry loop raises, and the call goes on,
  fetches the page with the next request and returns its record.
\<close>

theorem exhausted_retries_not_fatal:
  "retry_loop 0 (replicate 5 (HTTPError 503) @
       [Content (Feed [paper_entry ''http://arxiv.org/abs/2101.00001v1'' ''First''])]) [5] =
     Some (RaisedHTTP 503,
           [Content (Feed [paper_entry ''http://arxiv.org/abs/2101.00001v1'' ''First''])],
           [5, 10, 20, 30, 40]) \<and>
   get_daily_papers (\<lambda>d. ''{}'') ''202611'' None (Some 100) None None
      (fresh_world (replicate 5 (HTTPError 503) @
         [Content (Feed [paper_entry ''http://arxiv.org/abs/2101.00001v1'' ''First''])]) []) =
     Some ((fold add_entry [paper_entry ''http://arxiv.org/abs/2101.00001v1'' ''First''] [], 1),
           \<lparr>server = [], sleeps = [5, 10, 20, 30, 40, 10, 5, 5],
              arxiv_file = Some (''{}'' @ [newline]), write_faults = []\<rparr>)"
  by code_simp

subsection \<open>A failing write\<close>

lemma write_records_append:
  "write_records dumps pre n K b w = (None, n1, K1, b1, w1) \<Longrightarrow>
   write_records dumps (pre @ post) n K b w = write_records dumps post n1 K1 b1 w1"
proof (induction pre arbitrary: n K b w)
  case Nil
  then show ?case by simp
next
  case (Cons item rest)
  obtain paper_id paper_data where item: "item = (paper_id, paper_data)" by (cases item)
  show ?case
  proof (cases "normalize_value (dict_get paper_data ''id'' (JStr paper_id))")
    case (Inl err)
    with Cons.prems show ?thesis by (simp add: item)
  next
    case (Inr c)
    show ?thesis
    proof (cases "c \<in> K")
      case True
      with Cons.prems Inr have "write_records dumps rest n K b w = (None, n1, K1, b1, w1)"
        by (simp add: item)
      from Cons.IH [OF this] show ?thesis using Inr True by (simp add: item)
    next
      case False
      obtain ok b' w' where fw: "file_write (dumps (JObj paper_data) @ [newline]) b w = (ok, b', w')"
        by (cases "file_write (dumps (JObj paper_data) @ [newline]) b w") auto
      show ?thesis
      proof (cases ok)
        case False': False
        with Cons.prems Inr False fw show ?thesis by (simp add: item)
      next
        case True
        with Cons.prems Inr False fw
        have "write_records dumps rest (n + 1) (insert c K) b' w' = (None, n1, K1, b1, w1)"
          by (simp add: item)
        from Cons.IH [OF this] show ?thesis using Inr False fw True by (simp add: item)
      qed
    qed
  qed
qed

lemma save_metadata_files_grows:
  assumes "save_metadata_files dumps new_dict K w = (r, K', w')"
  shows "K \<subseteq> K' \<and> prefix (file_bytes w) (file_bytes w')"
  using assms
proof (cases rule: save_metadata_files_cases)
  case dir_failed
  then show ?thesis using make_dir_bytes [OF dir_failed(1)] by simp
next
  case (newline_failed w0)
  then show ?thesis
    using make_dir_bytes [OF newline_failed(1)] ensure_newline_bytes [OF newline_failed(2)]
    by auto
next
  case (open_failed w0 w1)
  then show ?thesis
    using make_dir_bytes [OF open_failed(1)] ensure_newline_bytes [OF open_failed(2)]
      open_append_bytes [OF open_failed(3)]
    by auto
next
  case (written w0 w1 w2 e n b w3 ok)
  have p2: "prefix (file_bytes w) (file_bytes w2)"
    using make_dir_bytes [OF written(1)] ensure_newline_bytes [OF written(2)]
      open_append_bytes [OF written(3)] by auto
  from write_records_accepts [OF written(4)]
  have k: "K \<subseteq> K'" and p3: "prefix (file_bytes w2) (file_bytes w3)" by auto
  from file_close_bytes [OF written(5)] have p4: "prefix (file_bytes w3) (file_bytes w')" by auto
  from p2 p3 p4 have "prefix (file_bytes w) (file_bytes w')" by (meson prefix_order.trans)
  with k show ?thesis by simp
qed

lemma save_batch_caught:
  assumes "select_new (drop (length (full_content s) - entry_count) (full_content s))
             (existing_data s) ([], 0) = Inr (batch_data, batch_new_count)"
    and "batch_data \<noteq> []"
    and "save_metadata_files dumps batch_data (existing_data s) w = (Inl e, K', w')"
  shows "save_batch dumps entry_count s w = (s\<lparr>existing_data := K'\<rparr>, w')"
  using assms by (simp add: save_batch_def Let_def)

text \<open>
  Claim C3, amended. When the write of a record raises (the directory, the newline
  repair, the opening of the file and the writes of the records \<open>pre\<close> in front of it
  having succeeded), the batch is aborted: \<open>save_metadata_files\<close> closes the file and
  leaves with \<^verbatim>\<open>OSError\<close>, whatever records \<open>post\<close> follow the failing one. Nothing is
  rolled back: the Known-ID Set is the one the writes of \<open>pre\<close> have left, with the IDs
  of the records written before, and every byte that was in the store file when the
  write raised is still there after the call. In general a call of
  \<open>save_metadata_files\<close>, whether it returns or raises, only adds to the Known-ID Set and
  only appends to the store file. Inside \<open>get_daily_papers\<close> the failure is not fatal:
  the function catches the exception, keeps the Known-ID Set as the writer left it, and
  every turn of the fetch loop on a page with a real entry goes on to the loop's next
  test, whatever the writer did. The call at the end of the date-range branch of \<open>main\<close>
  has no handler: there the exception of the writer is the outcome of the call.
\<close>

theorem write_failure_contained:
  "(make_dir w = (True, w0) \<and> ensure_newline w0 = (True, w1) \<and> open_append w1 = (True, w2) \<and>
    write_records dumps pre 0 K [] w2 = (None, n1, K1, b1, w3) \<and>
    canonical_id item = Inr c \<and> c \<notin> K1 \<and>
    file_write (line_of dumps item) b1 w3 = (False, b2, w4) \<and>
    file_close b2 w4 = (ok, w5) \<longrightarrow>
      save_metadata_files dumps (pre @ item # post) K w = (Inl OSError, K1, w5) \<and>
      K \<subseteq> K1 \<and> prefix (file_bytes w) (file_bytes w3) \<and>
      prefix (file_bytes w3) (file_bytes w5)) \<and>
   (save_metadata_files dumps new_dict K w = (r, K', w') \<longrightarrow>
      K \<subseteq> K' \<and> prefix (file_bytes w) (file_bytes w')) \<and>
   (select_new (drop (length (full_content s) - entry_count) (full_content s))
        (existing_data s) ([], 0) = Inr (new_dict, batch_new_count) \<and>
    new_dict \<noteq> [] \<and>
    save_metadata_files dumps new_dict (existing_data s) w = (Inl e, K', w') \<longrightarrow>
      save_batch dumps entry_count s w = (s\<lparr>existing_data := K'\<rparr>, w')) \<and>
   (retry_loop 0 (server v) (sleeps v @ [5]) = Some (Got (Feed entries), rest, slept) \<and>
    0 < count_entries entries (full_content s) \<longrightarrow>
      (\<exists>s' v'. loop_body dumps s v = Some (Next s', v'))) \<and>
   (save_metadata_files dumps new_dict
        (load_existing_metadata_files skip cur metadata_dir) w = (Inl e, K', w') \<longrightarrow>
      save_all dumps skip cur metadata_dir new_dict w = (Inl e, K', w'))"
proof (intro conjI impI)
  assume a: "make_dir w = (True, w0) \<and> ensure_newline w0 = (True, w1) \<and>
    open_append w1 = (True, w2) \<and>
    write_records dumps pre 0 K [] w2 = (None, n1, K1, b1, w3) \<and>
    canonical_id item = Inr c \<and> c \<notin> K1 \<and>
    file_write (line_of dumps item) b1 w3 = (False, b2, w4) \<and>
    file_close b2 w4 = (ok, w5)"
  then have md: "make_dir w = (True, w0)" and en: "ensure_newline w0 = (True, w1)"
    and oa: "open_append w1 = (True, w2)"
    and wr: "write_records dumps pre 0 K [] w2 = (None, n1, K1, b1, w3)"
    and ci: "canonical_id item = Inr c" and new: "c \<notin> K1"
    and fw: "file_write (line_of dumps item) b1 w3 = (False, b2, w4)"
    and fc: "file_close b2 w4 = (ok, w5)" by simp_all
  obtain paper_id paper_data where item: "item = (paper_id, paper_data)" by (cases item)
  have "write_records dumps (pre @ item # post) 0 K [] w2 =
      write_records dumps (item # post) n1 K1 b1 w3"
    using wr by (rule write_records_append)
  also have "\<dots> = (Some OSError, n1, K1, b2, w4)"
    using ci new fw by (simp add: item canonical_id_def line_of_def)
  finally have all: "write_records dumps (pre @ item # post) 0 K [] w2 =
      (Some OSError, n1, K1, b2, w4)" .
  have ar: "append_records dumps (pre @ item # post) K w2 = (Some OSError, n1, K1, w5)"
    using all fc by (cases ok) (simp_all add: append_records_def)
  show "save_metadata_files dumps (pre @ item # post) K w = (Inl OSError, K1, w5)"
    by (simp add: save_metadata_files_def md en oa ar)
  from write_records_accepts [OF wr] show "K \<subseteq> K1" by auto
  have "prefix (file_bytes w) (file_bytes w2)"
    using make_dir_bytes [OF md] ensure_newline_bytes [OF en] open_append_bytes [OF oa] by auto
  moreover from write_records_accepts [OF wr] have "prefix (file_bytes w2) (file_bytes w3)"
    by auto
  ultimately show "prefix (file_bytes w) (file_bytes w3)" by (rule prefix_order.trans)
  have "prefix (file_bytes w3) (file_bytes w4)" using fw by (rule file_write_prefix)
  moreover from file_close_bytes [OF fc] have "prefix (file_bytes w4) (file_bytes w5)" by auto
  ultimately show "prefix (file_bytes w3) (file_bytes w5)" by (rule prefix_order.trans)
next
  assume a: "save_metadata_files dumps new_dict K w = (r, K', w')"
  from save_metadata_files_grows [OF a]
  show "K \<subseteq> K'" and "prefix (file_bytes w) (file_bytes w')" by simp_all
next
  assume "select_new (drop (length (full_content s) - entry_count) (full_content s))
        (existing_data s) ([], 0) = Inr (new_dict, batch_new_count) \<and>
    new_dict \<noteq> [] \<and>
    save_metadata_files dumps new_dict (existing_data s) w = (Inl e, K', w')"
  then show "save_batch dumps entry_count s w = (s\<lparr>existing_data := K'\<rparr>, w')"
    using save_batch_caught by blast
next
  assume "retry_loop 0 (server v) (sleeps v @ [5]) = Some (Got (Feed entries), rest, slept) \<and>
    0 < count_entries entries (full_content s)"
  then have r: "retry_loop 0 (server v) (sleeps v @ [5]) = Some (Got (Feed entries), rest, slept)"
    and c: "count_entries entries (full_content s) \<noteq> 0" by simp_all
  from loop_body_page [OF r, of dumps s] c
  obtain x v' where "loop_body dumps s v = Some (x, v')" "x = Next (flow_state x)" by auto
  then show "\<exists>s' v'. loop_body dumps s v = Some (Next s', v')" by metis
next
  assume "save_metadata_files dumps new_dict
        (load_existing_metadata_files skip cur metadata_dir) w = (Inl e, K', w')"
  then show "save_all dumps skip cur metadata_dir new_dict w = (Inl e, K', w')"
    by (simp add: save_all_def)
qed


theorem write_failure_contained_witness:
  "save_metadata_files id_line ([(''a'', [(''id'', JStr ''a'')])] @ (''b'', [(''id'', JStr ''b'')]) # [(''c'', [(''id'', JStr ''c'')])]) {}
       \<lparr>server = [], sleeps = [], arxiv_file = None, write_faults = [Succeeds, Succeeds, Succeeds, Fails 0, Fails 0]\<rparr> =
     (Inl OSError, {''a''},
      \<lparr>server = [], sleeps = [], arxiv_file = Some (''a'' @ [newline]), write_faults = []\<rparr>) \<and>
   ({} :: string set) \<subseteq> {''a''} \<and>
   prefix (file_bytes \<lparr>server = [], sleeps = [], arxiv_file = None, write_faults = [Succeeds, Succeeds, Succeeds, Fails 0, Fails 0]\<rparr>)
     (file_bytes \<lparr>server = [], sleeps = [], arxiv_file = Some (''a'' @ [newline]), write_faults = [Fails 0, Fails 0]\<rparr>) \<and>
   prefix (file_bytes \<lparr>server = [], sleeps = [], arxiv_file = Some (''a'' @ [newline]), write_faults = [Fails 0, Fails 0]\<rparr>)
     (file_bytes \<lparr>server = [], sleeps = [], arxiv_file = Some (''a'' @ [newline]), write_faults = []\<rparr>) \<and>
   save_batch id_line 3
       (initial_state\<lparr>full_content := [(''a'', [(''id'', JStr ''a'')]), (''b'', [(''id'', JStr ''b'')]), (''c'', [(''id'', JStr ''c'')])]\<rparr>)
       \<lparr>server = [], sleeps = [], arxiv_file = None, write_faults = [Succeeds, Succeeds, Succeeds, Fails 0, Fails 0]\<rparr> =
     (initial_state\<lparr>full_content := [(''a'', [(''id'', JStr ''a'')]), (''b'', [(''id'', JStr ''b'')]), (''c'', [(''id'', JStr ''c'')])],
                    existing_data := {''a''}\<rparr>,
      \<lparr>server = [], sleeps = [], arxiv_file = Some (''a'' @ [newline]), write_faults = []\<rparr>) \<and>
   (\<exists>s' v'. loop_body id_line initial_state
       (fresh_world [Content (Feed [paper_entry ''http://arxiv.org/abs/2101.00001v1'' ''First''])]
          [Succeeds, Succeeds, Fails 0, Fails 0]) =
     Some (Next s', v')) \<and>
   save_all id_line False ''202611'' None [(''a'', [(''id'', JStr ''a'')]), (''b'', [(''id'', JStr ''b'')]), (''c'', [(''id'', JStr ''c'')])]
       \<lparr>server = [], sleeps = [], arxiv_file = None, write_faults = [Succeeds, Succeeds, Succeeds, Fails 0, Fails 0]\<rparr> =
     (Inl OSError, {''a''},
      \<lparr>server = [], sleeps = [], arxiv_file = Some (''a'' @ [newline]), write_faults = []\<rparr>)"
proof -
  let ?B = "[(''a'', [(''id'', JStr ''a'')]), (''b'', [(''id'', JStr ''b'')]), (''c'', [(''id'', JStr ''c'')])]"
  let ?w = "\<lparr>server = [], sleeps = [], arxiv_file = None, write_faults = [Succeeds, Succeeds, Succeeds, Fails 0, Fails 0]\<rparr>"
  let ?wd = "\<lparr>server = [], sleeps = [], arxiv_file = None, write_faults = [Succeeds, Succeeds, Fails 0, Fails 0]\<rparr>"
  let ?wo = "\<lparr>server = [], sleeps = [], arxiv_file = Some [], write_faults = [Succeeds, Fails 0, Fails 0]\<rparr>"
  let ?wp = "\<lparr>server = [], sleeps = [], arxiv_file = Some (''a'' @ [newline]), write_faults = [Fails 0, Fails 0]\<rparr>"
  let ?wq = "\<lparr>server = [], sleeps = [], arxiv_file = Some (''a'' @ [newline]), write_faults = [Fails 0]\<rparr>"
  let ?wr = "\<lparr>server = [], sleeps = [], arxiv_file = Some (''a'' @ [newline]), write_faults = []\<rparr>"
  let ?s = "initial_state\<lparr>full_content := ?B\<rparr>"
  let ?E = "paper_entry ''http://arxiv.org/abs/2101.00001v1'' ''First''"
  let ?v = "fresh_world [Content (Feed [?E])] [Succeeds, Succeeds, Fails 0, Fails 0]"
  have na: "normalize_arxiv_id ''a'' = ''a''" by code_simp
  have nb: "normalize_arxiv_id ''b'' = ''b''" by code_simp
  have nc: "normalize_arxiv_id ''c'' = ''c''" by code_simp
  have md: "make_dir ?w = (True, ?wd)" by (simp add: make_dir_def next_outcome_def)
  have en: "ensure_newline ?wd = (True, ?wd)" by (simp add: ensure_newline_def)
  have oa: "open_append ?wd = (True, ?wo)" by (simp add: open_append_def next_outcome_def)
  have wr: "write_records id_line [(''a'', [(''id'', JStr ''a'')])] 0 {} [] ?wo = (None, 1, {''a''}, [], ?wp)"
    by (simp add: dict_get_def na file_write_def next_outcome_def to_disk_def file_bytes_def
        id_line_def)
  have ci: "canonical_id (''b'', [(''id'', JStr ''b'')]) = Inr ''b''"
    by (simp add: canonical_id_def dict_get_def nb)
  have new: "''b'' \<notin> {''a''}" by simp
  have fw: "file_write (line_of id_line (''b'', [(''id'', JStr ''b'')])) [] ?wp = (False, ''b'' @ [newline], ?wq)"
    by (simp add: file_write_def next_outcome_def to_disk_def file_bytes_def id_line_def
        line_of_def)
  have fc: "file_close (''b'' @ [newline]) ?wq = (False, ?wr)"
    by (simp add: file_close_def next_outcome_def to_disk_def file_bytes_def)
  note p = write_failure_contained [THEN conjunct1, rule_format,
      OF conjI [OF md conjI [OF en conjI [OF oa conjI [OF wr conjI [OF ci conjI [OF new
        conjI [OF fw fc]]]]]]]]
  have run: "save_metadata_files id_line ?B {} ?w = (Inl OSError, {''a''}, ?wr)"
    using p [THEN conjunct1, of "[(''c'', [(''id'', JStr ''c'')])]"] by simp
  have sel: "select_new (drop (length (full_content ?s) - 3) (full_content ?s)) (existing_data ?s)
      ([], 0) = Inr (?B, 3)"
    by (simp add: initial_state_def dict_get_def na nb nc)
  have run': "save_metadata_files id_line ?B (existing_data ?s) ?w = (Inl OSError, {''a''}, ?wr)"
    using run by (simp add: initial_state_def)
  have ne: "?B \<noteq> []" by simp
  have rl: "retry_loop 0 (server ?v) (sleeps ?v @ [5]) = Some (Got (Feed [?E]), [], [5])"
    by (simp add: fresh_world_def)
  have cnt: "0 < count_entries [?E] (full_content initial_state)" by code_simp
  have run'': "save_metadata_files id_line ?B
      (load_existing_metadata_files False ''202611'' None) ?w = (Inl OSError, {''a''}, ?wr)"
    using run by (simp add: load_existing_metadata_files_def)
  note q = write_failure_contained [THEN conjunct2, THEN conjunct2, THEN conjunct1, rule_format,
      OF conjI [OF sel conjI [OF ne run']]]
  note r = write_failure_contained [THEN conjunct2, THEN conjunct2, THEN conjunct2,
      THEN conjunct1, rule_format, OF conjI [OF rl cnt]]
  note t = write_failure_contained [THEN conjunct2, THEN conjunct2, THEN conjunct2,
      THEN conjunct2, rule_format, OF run'']
  show ?thesis
    by (intro conjI p [THEN conjunct1] p [THEN conjunct2, THEN conjunct1]
        p [THEN conjunct2, THEN conjunct2, THEN conjunct1]
        p [THEN conjunct2, THEN conjunct2, THEN conjunct2] q r t)
qed

text \<open>
  Claim C3 as stated fails where it says that the fetch loop does not continue past a
  failed write. In the run below the only write of the first page raises (and so does
  the closing of the file): the writer leaves with the exception and the record
  \<^verbatim>\<open>2101.00001\<close> is not stored. The fetch loop goes on, requests the second page,
  stores its record, and the call returns both records.
\<close>

theorem write_failure_not_fatal:
  "save_metadata_files id_line
       (fold add_entry [paper_entry ''http://arxiv.org/abs/2101.00001v1'' ''First''] []) {}
       \<lparr>server = [Content (Feed [paper_entry ''http://arxiv.org/abs/2101.00002v1'' ''Second''])],
          sleeps = [5], arxiv_file = None,
          write_faults = [Succeeds, Succeeds, Fails 0, Fails 0]\<rparr> =
     (Inl OSError, {},
      \<lparr>server = [Content (Feed [paper_entry ''http://arxiv.org/abs/2101.00002v1'' ''Second''])],
         sleeps = [5], arxiv_file = Some [], write_faults = []\<rparr>) \<and>
   get_daily_papers id_line ''202611'' None (Some 200) None None
       (fresh_world [Content (Feed [paper_entry ''http://arxiv.org/abs/2101.00001v1'' ''First'']),
                     Content (Feed [paper_entry ''http://arxiv.org/abs/2101.00002v1'' ''Second''])]
          [Succeeds, Succeeds, Fails 0, Fails 0]) =
     Some ((fold add_entry [paper_entry ''http://arxiv.org/abs/2101.00001v1'' ''First'',
                            paper_entry ''http://arxiv.org/abs/2101.00002v1'' ''Second''] [], 1),
           \<lparr>server = [], sleeps = [5, 5, 5], arxiv_file = Some (''2101.00002'' @ [newline]),
              write_faults = []\<rparr>)"
  by code_simp

end
